theory Spec2Isabelle
  imports Main
begin

section \<open>Go channels\<close>

text \<open>
  A buffered channel \<^verbatim>\<open>make(chan string, n)\<close> is its capacity and the queue of values
  sent and not yet received. A call that may suspend its goroutine forever, or panic,
  says so in its result.
\<close>

record chan =
  cap :: nat
  buf :: "string list"

datatype 'a outcome = Returns 'a | Blocks | Panics

definition make_chan :: "nat \<Rightarrow> chan" where
  "make_chan n = \<lparr>cap = n, buf = []\<rparr>"

text \<open>\<^verbatim>\<open>ch <- v\<close>: completes when the buffer has room, suspends the sender otherwise.\<close>

definition send :: "chan \<Rightarrow> string \<Rightarrow> chan outcome" where
  "send ch v = (if length (buf ch) < cap ch then Returns (ch\<lparr>buf := buf ch @ [v]\<rparr>) else Blocks)"

text \<open>\<^verbatim>\<open>select { case ch <- v: default: }\<close>: the send, or nothing when it would suspend.\<close>

definition try_send :: "chan \<Rightarrow> string \<Rightarrow> chan" where
  "try_send ch v = (case send ch v of Returns ch' \<Rightarrow> ch' | _ \<Rightarrow> ch)"

text \<open>\<^verbatim>\<open><-ch\<close>, one iteration of \<^verbatim>\<open>for v := range ch\<close>: the oldest value of the buffer.\<close>

definition recv :: "chan \<Rightarrow> (string \<times> chan) outcome" where
  "recv ch = (case buf ch of [] \<Rightarrow> Blocks | v # vs \<Rightarrow> Returns (v, ch\<lparr>buf := vs\<rparr>))"

section \<open>The session log: history and subscribers\<close>

datatype error =
    ErrServerExists
  | ErrNotRunning
  | ErrAlreadyRunning
  | ErrStdoutPipe
  | ErrStderrPipe
  | ErrStdinPipe
  | ErrSpawn
  | ErrKill

text \<open>
  The package variables \<^verbatim>\<open>sessionLogs\<close> and \<^verbatim>\<open>subscribers\<close>, both guarded by
  \<^verbatim>\<open>sessionMu\<close>: each function below is one critical section. A subscriber's channel is
  known by its position in \<^verbatim>\<open>subscribers\<close>.
\<close>

record hub =
  sessionLogs :: "string list"
  subscribers :: "chan list"

definition hub_init :: hub where
  "hub_init = \<lparr>sessionLogs = [], subscribers = []\<rparr>"

definition Subscribe :: "hub \<Rightarrow> nat \<times> hub" where
  "Subscribe h =
     (let ch = make_chan 100
      in (length (subscribers h), h\<lparr>subscribers := subscribers h @ [ch]\<rparr>))"

definition GetSessionLogs :: "hub \<Rightarrow> string list" where
  "GetSessionLogs h = sessionLogs h"

text \<open>The loop \<^verbatim>\<open>for _, sub := range subscribers\<close> of \<^verbatim>\<open>sessionWriter.Write\<close>.\<close>

fun offer_each :: "chan list \<Rightarrow> string \<Rightarrow> chan list" where
  "offer_each [] msg = []"
| "offer_each (sub # subs) msg = try_send sub msg # offer_each subs msg"

definition Write :: "string \<Rightarrow> hub \<Rightarrow> (error + nat) \<times> hub" where
  "Write p h =
     (let msg = p
      in (Inr (length p),
          h\<lparr>sessionLogs := sessionLogs h @ [msg],
            subscribers := offer_each (subscribers h) msg\<rparr>))"

text \<open>
  What happens to the hub: a log line is written, a client subscribes, or the handler of
  subscriber \<open>i\<close> takes the next line from its channel (\<^verbatim>\<open>for msg := range ch\<close> in
  \<^verbatim>\<open>logsHandler\<close>; nothing is taken from an empty channel).
\<close>

datatype hub_event = EvWrite string | EvSubscribe | EvReceive nat

definition receive :: "nat \<Rightarrow> hub \<Rightarrow> hub" where
  "receive i h =
     (if i < length (subscribers h)
      then (case recv (subscribers h ! i) of
              Returns (v, ch) \<Rightarrow> h\<lparr>subscribers := (subscribers h)[i := ch]\<rparr>
            | _ \<Rightarrow> h)
      else h)"

fun hub_exec :: "hub_event \<Rightarrow> hub \<Rightarrow> hub" where
  "hub_exec (EvWrite p) h = snd (Write p h)"
| "hub_exec EvSubscribe h = snd (Subscribe h)"
| "hub_exec (EvReceive i) h = receive i h"

fun hub_run :: "hub_event list \<Rightarrow> hub \<Rightarrow> hub" where
  "hub_run [] h = h"
| "hub_run (e # es) h = hub_run es (hub_exec e h)"

text \<open>The lines written during a run, and the lines the handler of subscriber \<open>k\<close> took.\<close>

fun published :: "hub_event list \<Rightarrow> string list" where
  "published [] = []"
| "published (EvWrite p # es) = p # published es"
| "published (e # es) = published es"

fun taken :: "nat \<Rightarrow> hub_event \<Rightarrow> hub \<Rightarrow> string list" where
  "taken k (EvReceive i) h =
     (if i = k \<and> k < length (subscribers h)
      then (case recv (subscribers h ! k) of Returns (v, ch) \<Rightarrow> [v] | _ \<Rightarrow> [])
      else [])"
| "taken k e h = []"

fun received :: "nat \<Rightarrow> hub_event list \<Rightarrow> hub \<Rightarrow> string list" where
  "received k [] h = []"
| "received k (e # es) h = taken k e h @ received k es (hub_exec e h)"

text \<open>Subscriber \<open>k\<close> keeps up: its buffer has room at every write of the run.\<close>

fun keeps_up :: "nat \<Rightarrow> hub_event list \<Rightarrow> hub \<Rightarrow> bool" where
  "keeps_up k [] h = True"
| "keeps_up k (EvWrite p # es) h =
     (length (buf (subscribers h ! k)) < cap (subscribers h ! k)
      \<and> keeps_up k es (hub_exec (EvWrite p) h))"
| "keeps_up k (e # es) h = keeps_up k es (hub_exec e h)"

section \<open>The supervised server process\<close>

text \<open>
  The child process behind \<^verbatim>\<open>s.cmd\<close>: \<^verbatim>\<open>exec.Command\<close> gives a command that is not
  started, a successful \<^verbatim>\<open>cmd.Start()\<close> a live process, and the process ends once
  (by itself, by a signal from outside, or by \<^verbatim>\<open>Process.Kill\<close>). The readers of the
  child's output (\<^verbatim>\<open>pipeAndLog\<close>) only log what they read and touch no state of the
  server: they are callers of \<^verbatim>\<open>Write\<close> above.
\<close>

datatype proc = Unstarted | Alive | Exited

text \<open>
  The first goroutine of \<^verbatim>\<open>startInternal\<close> (started before \<^verbatim>\<open>s.cmd\<close> is assigned):
  it has returned or finished, it is inside \<^verbatim>\<open>s.cmd.Wait()\<close> on a live process, it is
  about to clear \<^verbatim>\<open>isRunning\<close> and close \<^verbatim>\<open>done\<close> (under \<^verbatim>\<open>s.mu\<close>), or it is about
  to unregister the server (under \<^verbatim>\<open>serverMu\<close>).
\<close>

datatype early_pc = EarlyGone | EarlyWaits | EarlyFlags | EarlyUnregisters

text \<open>
  The struct \<^verbatim>\<open>Server\<close>; \<open>done_closed\<close> says that the channel \<^verbatim>\<open>done\<close> is closed
  (nothing is ever sent on it). The mutex \<^verbatim>\<open>mu\<close> is not a field: every function and
  goroutine step below is one critical section of it. The last four fields are what
  surrounds the struct: the bytes written into the child's standard input, the lines
  accepted by \<^verbatim>\<open>stdin\<close> so far (a history, read by no code), the state of the first
  goroutine and whether the exit watcher (the last goroutine) is still waiting.
\<close>

record Server =
  cmd :: "proc option"
  stdin :: chan
  done_closed :: bool
  isRunning :: bool
  stdinPipe :: string
  sent :: "string list"
  early :: early_pc
  watcher :: bool

text \<open>
  What the operating system answers to the calls of \<^verbatim>\<open>startInternal\<close>: one of the
  three pipes cannot be created, the process cannot be started, or it starts.
\<close>

datatype launch = StdoutPipeFails | StderrPipeFails | StdinPipeFails | SpawnFails | Spawns

text \<open>
  When the scheduler runs the first goroutine: it reads \<^verbatim>\<open>s.cmd\<close> before the assignment
  of the command, or after it and then calls \<^verbatim>\<open>Wait\<close> before or after \<^verbatim>\<open>cmd.Start()\<close>.
\<close>

datatype sched = ReadsBeforeCommand | WaitsBeforeSpawn | WaitsAfterSpawn

text \<open>
  The first goroutine on the command it read: it returns on \<^verbatim>\<open>nil\<close>; \<^verbatim>\<open>Wait\<close> blocks
  on a live process and returns an error at once on a command that is not started or has
  been waited for.
\<close>

definition wait_pc :: "proc option \<Rightarrow> early_pc" where
  "wait_pc c = (case c of None \<Rightarrow> EarlyGone | Some Alive \<Rightarrow> EarlyWaits | Some _ \<Rightarrow> EarlyFlags)"

definition early_after :: "sched \<Rightarrow> proc option \<Rightarrow> proc option \<Rightarrow> early_pc" where
  "early_after sch before after =
     (case sch of
        ReadsBeforeCommand \<Rightarrow> wait_pc before
      | WaitsBeforeSpawn \<Rightarrow> EarlyFlags
      | WaitsAfterSpawn \<Rightarrow> wait_pc after)"

definition launch_error :: "launch \<Rightarrow> error" where
  "launch_error l =
     (case l of
        StdoutPipeFails \<Rightarrow> ErrStdoutPipe
      | StderrPipeFails \<Rightarrow> ErrStderrPipe
      | StdinPipeFails \<Rightarrow> ErrStdinPipe
      | _ \<Rightarrow> ErrSpawn)"

definition Server_GetStatus :: "Server \<Rightarrow> bool" where
  "Server_GetStatus s = isRunning s"

definition startInternal :: "launch \<Rightarrow> sched \<Rightarrow> Server \<Rightarrow> (error + unit) \<times> Server" where
  "startInternal l sch s =
     (if isRunning s then (Inl ErrAlreadyRunning, s\<lparr>early := wait_pc (cmd s)\<rparr>)
      else
        (let s1 = s\<lparr>cmd := Some Unstarted\<rparr>
         in case l of
              StdoutPipeFails \<Rightarrow>
                (Inl ErrStdoutPipe, s1\<lparr>early := early_after sch (cmd s) (Some Unstarted)\<rparr>)
            | StderrPipeFails \<Rightarrow>
                (Inl ErrStderrPipe, s1\<lparr>early := early_after sch (cmd s) (Some Unstarted)\<rparr>)
            | StdinPipeFails \<Rightarrow>
                (Inl ErrStdinPipe, s1\<lparr>early := early_after sch (cmd s) (Some Unstarted)\<rparr>)
            | SpawnFails \<Rightarrow>
                (Inl ErrSpawn, s1\<lparr>early := early_after sch (cmd s) (Some Unstarted)\<rparr>)
            | Spawns \<Rightarrow>
                (Inr (), s1\<lparr>cmd := Some Alive, isRunning := True, watcher := True,
                             early := early_after sch (cmd s) (Some Alive)\<rparr>)))"

definition Server_RunCommand :: "string \<Rightarrow> Server \<Rightarrow> (error + unit) outcome \<times> Server" where
  "Server_RunCommand c s =
     (if \<not> Server_GetStatus s then (Returns (Inl ErrNotRunning), s)
      else (case send (stdin s) c of
              Returns ch \<Rightarrow> (Returns (Inr ()), s\<lparr>stdin := ch, sent := sent s @ [c]\<rparr>)
            | Blocks \<Rightarrow> (Blocks, s)
            | Panics \<Rightarrow> (Panics, s)))"

definition Server_Stop :: "Server \<Rightarrow> (error + unit) outcome \<times> Server" where
  "Server_Stop s =
     (if \<not> Server_GetStatus s then (Returns (Inl ErrNotRunning), s)
      else Server_RunCommand ''stop'' s)"

text \<open>
  The method \<^verbatim>\<open>Kill\<close> of a server; \<open>ok\<close> is the answer of \<^verbatim>\<open>s.cmd.Process.Kill()\<close>,
  after which the process is dead. Without a command or a process the call dereferences
  \<^verbatim>\<open>nil\<close>.
\<close>

definition Server_Kill :: "bool \<Rightarrow> Server \<Rightarrow> (error + unit) outcome \<times> Server" where
  "Server_Kill ok s =
     (if \<not> isRunning s then (Returns (Inl ErrNotRunning), s)
      else (case cmd s of
              None \<Rightarrow> (Panics, s)
            | Some Unstarted \<Rightarrow> (Panics, s)
            | Some p \<Rightarrow>
                if ok then (Returns (Inr ()), s\<lparr>cmd := Some Exited\<rparr>)
                else (Returns (Inl ErrKill), s)))"

subsection \<open>The registry and the package functions\<close>

text \<open>
  \<^verbatim>\<open>activeServer\<close> is a pointer: an address into the store of all servers allocated so
  far (\<^verbatim>\<open>&Server{...}\<close> allocates at the end). \<^verbatim>\<open>serverMu\<close> makes each package function
  one critical section. \<open>crashed\<close>: a goroutine has panicked, which ends the program.
\<close>

record world =
  activeServer :: "nat option"
  servers :: "Server list"
  crashed :: bool

definition world_init :: world where
  "world_init = \<lparr>activeServer = None, servers = [], crashed = False\<rparr>"

definition GetStatus :: "world \<Rightarrow> bool" where
  "GetStatus w =
     (case activeServer w of
        None \<Rightarrow> False
      | Some a \<Rightarrow> Server_GetStatus (servers w ! a))"

text \<open>
  \<^verbatim>\<open>&Server{stdin: make(chan string, 100), done: make(chan struct{})}\<close>: no command,
  not running, nothing written, no goroutine yet.
\<close>

definition new_Server :: Server where
  "new_Server =
     \<lparr>cmd = None, stdin = make_chan 100, done_closed = False, isRunning = False,
      stdinPipe = [], sent = [], early = EarlyGone, watcher = False\<rparr>"

definition Start :: "launch \<Rightarrow> sched \<Rightarrow> world \<Rightarrow> (error + unit) \<times> world" where
  "Start l sch w =
     (if activeServer w \<noteq> None \<and> Server_GetStatus (servers w ! the (activeServer w))
      then (Inl ErrServerExists, w)
      else
        (let s = new_Server;
             r = startInternal l sch s
         in (fst r, w\<lparr>activeServer := Some (length (servers w)),
                      servers := servers w @ [snd r]\<rparr>)))"

text \<open>A method call on the registered server, its result and the server written back.\<close>

definition on_active ::
  "(Server \<Rightarrow> (error + unit) outcome \<times> Server) \<Rightarrow> world \<Rightarrow> (error + unit) outcome \<times> world" where
  "on_active f w =
     (if activeServer w = None \<or> \<not> Server_GetStatus (servers w ! the (activeServer w))
      then (Returns (Inl ErrNotRunning), w)
      else
        (let a = the (activeServer w); r = f (servers w ! a)
         in (fst r, w\<lparr>servers := (servers w)[a := snd r],
                      crashed := (crashed w \<or> fst r = Panics)\<rparr>)))"

definition Stop :: "world \<Rightarrow> (error + unit) outcome \<times> world" where
  "Stop w = on_active (Server_RunCommand ''stop'') w"

definition Kill :: "bool \<Rightarrow> world \<Rightarrow> (error + unit) outcome \<times> world" where
  "Kill ok w = on_active (Server_Kill ok) w"

definition RunCommand :: "string \<Rightarrow> world \<Rightarrow> (error + unit) outcome \<times> world" where
  "RunCommand c w = on_active (Server_RunCommand c) w"

subsection \<open>The goroutines\<close>

text \<open>
  The first goroutine, after \<^verbatim>\<open>Wait\<close> has returned: under \<^verbatim>\<open>s.mu\<close> it clears
  \<^verbatim>\<open>isRunning\<close> and closes \<^verbatim>\<open>done\<close> unless it is closed.
\<close>

definition early_flag :: "Server \<Rightarrow> Server" where
  "early_flag s =
     (if early s = EarlyFlags \<or> (early s = EarlyWaits \<and> cmd s = Some Exited)
      then s\<lparr>isRunning := False, done_closed := True, early := EarlyUnregisters\<rparr>
      else s)"

text \<open>Then, under \<^verbatim>\<open>serverMu\<close>: \<^verbatim>\<open>if activeServer == s { activeServer = nil }\<close>.\<close>

definition early_unregister :: "nat \<Rightarrow> world \<Rightarrow> world" where
  "early_unregister a w =
     (if early (servers w ! a) = EarlyUnregisters
      then w\<lparr>activeServer := (if activeServer w = Some a then None else activeServer w),
             servers := (servers w)[a := (servers w ! a)\<lparr>early := EarlyGone\<rparr>]\<rparr>
      else w)"

text \<open>
  The exit watcher, once \<^verbatim>\<open>s.cmd.Wait()\<close> has returned: it clears \<^verbatim>\<open>isRunning\<close>, closes
  \<^verbatim>\<open>done\<close> (closing a closed channel panics) and sets \<^verbatim>\<open>activeServer\<close> to \<^verbatim>\<open>nil\<close>.
\<close>

definition exit_watcher :: "nat \<Rightarrow> world \<Rightarrow> world" where
  "exit_watcher a w =
     (let s = servers w ! a
      in if watcher s \<and> cmd s = Some Exited
         then (if done_closed s
               then w\<lparr>servers := (servers w)[a := s\<lparr>isRunning := False, watcher := False\<rparr>],
                      crashed := True\<rparr>
               else w\<lparr>activeServer := None,
                      servers := (servers w)[a := s\<lparr>isRunning := False, done_closed := True,
                                                   watcher := False\<rparr>]\<rparr>)
         else w)"

text \<open>
  One iteration of the writer \<^verbatim>\<open>for cmd := range s.stdin\<close>: the line and a newline go
  into the pipe; the result of the write is ignored, and a dead child receives nothing.
  The writer exists once the process has been started.
\<close>

definition stdin_writer :: "Server \<Rightarrow> Server" where
  "stdin_writer s =
     (if cmd s = Some Alive \<or> cmd s = Some Exited
      then (case recv (stdin s) of
              Returns (c, ch) \<Rightarrow>
                s\<lparr>stdin := ch,
                  stdinPipe := (if cmd s = Some Alive then stdinPipe s @ c @ [CHR 0x0A]
                                else stdinPipe s)\<rparr>
            | _ \<Rightarrow> s)
      else s)"

text \<open>The child ends by itself: it stops, crashes or is killed from outside.\<close>

definition child_exit :: "Server \<Rightarrow> Server" where
  "child_exit s = (if cmd s = Some Alive then s\<lparr>cmd := Some Exited\<rparr> else s)"

subsection \<open>Runs\<close>

datatype event =
    CallStart launch sched
  | CallStop
  | CallKill bool
  | CallRunCommand string
  | EarlyFlag nat
  | EarlyUnregister nat
  | ExitWatcher nat
  | StdinWriter nat
  | ChildExit nat

definition at_server :: "nat \<Rightarrow> (Server \<Rightarrow> Server) \<Rightarrow> world \<Rightarrow> world" where
  "at_server a f w =
     (if a < length (servers w) then w\<lparr>servers := (servers w)[a := f (servers w ! a)]\<rparr> else w)"

fun exec_event :: "event \<Rightarrow> world \<Rightarrow> world" where
  "exec_event (CallStart l sch) w = snd (Start l sch w)"
| "exec_event CallStop w = snd (Stop w)"
| "exec_event (CallKill ok) w = snd (Kill ok w)"
| "exec_event (CallRunCommand c) w = snd (RunCommand c w)"
| "exec_event (EarlyFlag a) w = at_server a early_flag w"
| "exec_event (EarlyUnregister a) w = (if a < length (servers w) then early_unregister a w else w)"
| "exec_event (ExitWatcher a) w = (if a < length (servers w) then exit_watcher a w else w)"
| "exec_event (StdinWriter a) w = at_server a stdin_writer w"
| "exec_event (ChildExit a) w = at_server a child_exit w"

text \<open>Nothing happens after a panic: the program has ended.\<close>

definition exec :: "event \<Rightarrow> world \<Rightarrow> world" where
  "exec e w = (if crashed w then w else exec_event e w)"

fun run :: "event list \<Rightarrow> world \<Rightarrow> world" where
  "run [] w = w"
| "run (e # es) w = run es (exec e w)"

text \<open>\<open>Start\<close> calls one after the other, with their results.\<close>

fun starts :: "(launch \<times> sched) list \<Rightarrow> world \<Rightarrow> (error + unit) list \<times> world" where
  "starts [] w = ([], w)"
| "starts ((l, sch) # ls) w =
     (let r = Start l sch w; rs = starts ls (snd r) in (fst r # fst rs, snd rs))"

text \<open>What the writer puts into the pipe for a list of lines.\<close>

definition piped :: "string list \<Rightarrow> string" where
  "piped ls = concat (map (\<lambda>c. c @ [CHR 0x0A]) ls)"

section \<open>Notions used in the statements\<close>

text \<open>
  Subscriber \<open>k\<close>'s channel seen alone: every written line is offered to it, and only its
  own handler takes lines from it.
\<close>

fun own_view :: "nat \<Rightarrow> hub_event list \<Rightarrow> chan \<Rightarrow> chan" where
  "own_view k [] ch = ch"
| "own_view k (EvWrite p # es) ch = own_view k es (try_send ch p)"
| "own_view k (EvReceive i # es) ch =
     own_view k es (if i = k then (case recv ch of Returns (v, ch') \<Rightarrow> ch' | _ \<Rightarrow> ch) else ch)"
| "own_view k (EvSubscribe # es) ch = own_view k es ch"

definition chan_ok :: "chan \<Rightarrow> bool" where
  "chan_ok ch = (cap ch = 100 \<and> length (buf ch) \<le> 100)"

definition hub_ok :: "hub \<Rightarrow> bool" where
  "hub_ok h = (\<forall>i < length (subscribers h). chan_ok (subscribers h ! i))"

text \<open>
  The lines accepted by \<^verbatim>\<open>stdin\<close> are, in order: those written into the pipe, those
  taken by the writer after the child's death, and those still in the buffer.
\<close>

definition fifo :: "Server \<Rightarrow> bool" where
  "fifo s = (\<exists>xs ys. sent s = xs @ ys @ buf (stdin s) \<and> stdinPipe s = piped xs
                     \<and> (cmd s = Some Alive \<longrightarrow> ys = []))"

definition srv_ok :: "Server \<Rightarrow> bool" where
  "srv_ok s =
     ((watcher s \<and> \<not> done_closed s \<longrightarrow> isRunning s)
      \<and> (early s = EarlyUnregisters \<longrightarrow> \<not> isRunning s)
      \<and> (isRunning s \<longrightarrow> cmd s = Some Alive \<or> cmd s = Some Exited)
      \<and> chan_ok (stdin s)
      \<and> fifo s)"

definition registered :: "world \<Rightarrow> nat \<Rightarrow> bool" where
  "registered w a = (activeServer w = Some a)"

definition world_ok :: "world \<Rightarrow> bool" where
  "world_ok w =
     ((\<forall>a. registered w a \<longrightarrow> a < length (servers w))
      \<and> (\<forall>a < length (servers w).
            srv_ok (servers w ! a) \<and> (isRunning (servers w ! a) \<longrightarrow> registered w a)))"

text \<open>
  A server that runs undisturbed: the first goroutine is gone, the exit watcher waits and
  \<^verbatim>\<open>done\<close> is open.
\<close>

definition steady :: "Server \<Rightarrow> bool" where
  "steady s = (isRunning s \<and> early s = EarlyGone \<and> watcher s \<and> \<not> done_closed s)"

text \<open>No server is running.\<close>

definition idle :: "world \<Rightarrow> bool" where
  "idle w = (\<forall>a < length (servers w). \<not> isRunning (servers w ! a))"

fun is_start :: "event \<Rightarrow> bool" where
  "is_start (CallStart l sch) = True"
| "is_start e = False"

section \<open>Two states used as examples\<close>

text \<open>
  A hub with one subscriber whose handler has taken nothing while 101 lines were written,
  and a world in which the server runs and 100 commands wait in its queue.
\<close>

definition hub_slow :: hub where
  "hub_slow = hub_run (EvSubscribe # replicate 101 (EvWrite ''x'')) hub_init"

definition world_full :: world where
  "world_full =
     run (CallStart Spawns ReadsBeforeCommand # replicate 100 (CallRunCommand ''list'')) world_init"

section \<open>Properties of the session log\<close>

lemma offer_each_map: "offer_each subs msg = map (\<lambda>sub. try_send sub msg) subs"
  by (induction subs) simp_all

lemma length_offer_each [simp]: "length (offer_each subs msg) = length subs"
  by (simp add: offer_each_map)

lemma nth_offer_each: "i < length subs \<Longrightarrow> offer_each subs msg ! i = try_send (subs ! i) msg"
  by (simp add: offer_each_map)

lemma try_send_room: "length (buf ch) < cap ch \<Longrightarrow> try_send ch v = ch\<lparr>buf := buf ch @ [v]\<rparr>"
  by (simp add: try_send_def send_def)

lemma try_send_full: "\<not> length (buf ch) < cap ch \<Longrightarrow> try_send ch v = ch"
  by (simp add: try_send_def send_def)


lemma published_Cons: "published (e # es) = published [e] @ published es"
  by (cases e) simp_all

lemma sessionLogs_hub_exec: "sessionLogs (hub_exec e h) = sessionLogs h @ published [e]"
  by (cases e) (simp_all add: Write_def Subscribe_def receive_def split: outcome.splits prod.splits)

lemma sessionLogs_hub_run: "sessionLogs (hub_run es h) = sessionLogs h @ published es"
proof (induction es arbitrary: h)
  case Nil
  then show ?case by simp
next
  case (Cons e es)
  then show ?case by (simp add: sessionLogs_hub_exec published_Cons [of e es])
qed

lemma length_subscribers_hub_exec:
  "length (subscribers (hub_exec e h)) =
     (if e = EvSubscribe then Suc (length (subscribers h)) else length (subscribers h))"
  by (cases e) (simp_all add: Write_def Subscribe_def receive_def split: outcome.splits prod.splits)

lemma length_subscribers_hub_run: "length (subscribers h) \<le> length (subscribers (hub_run es h))"
proof (induction es arbitrary: h)
  case Nil
  then show ?case by simp
next
  case (Cons e es)
  have "length (subscribers h) \<le> length (subscribers (hub_exec e h))"
    by (simp add: length_subscribers_hub_exec)
  also have "\<dots> \<le> length (subscribers (hub_run es (hub_exec e h)))"
    by (rule Cons.IH)
  finally show ?case by simp
qed

lemma nth_hub_exec:
  "k < length (subscribers h) \<Longrightarrow>
   subscribers (hub_exec e h) ! k = own_view k [e] (subscribers h ! k)"
  by (cases e)
     (auto simp: Write_def Subscribe_def receive_def nth_offer_each nth_append
           split: outcome.splits prod.splits)

lemma own_view_Cons: "own_view k (e # es) ch = own_view k es (own_view k [e] ch)"
  by (cases e) simp_all

lemma nth_hub_run:
  "k < length (subscribers h) \<Longrightarrow>
   subscribers (hub_run es h) ! k = own_view k es (subscribers h ! k)"
proof (induction es arbitrary: h)
  case Nil
  then show ?case by simp
next
  case (Cons e es)
  have "k < length (subscribers (hub_exec e h))"
    using Cons.prems by (simp add: length_subscribers_hub_exec)
  then have "subscribers (hub_run es (hub_exec e h)) ! k =
             own_view k es (subscribers (hub_exec e h) ! k)"
    by (rule Cons.IH)
  then show ?case
    using Cons.prems by (simp add: nth_hub_exec own_view_Cons [of k e es])
qed

lemma no_gap_step:
  assumes "k < length (subscribers h)" and "keeps_up k [e] h"
  shows "taken k e h @ buf (subscribers (hub_exec e h) ! k) =
         buf (subscribers h ! k) @ published [e]"
  using assms
  by (cases e)
     (auto simp: Write_def Subscribe_def receive_def nth_offer_each nth_append
                 try_send_room recv_def
           split: outcome.splits prod.splits list.splits)

lemma keeps_up_Cons: "keeps_up k (e # es) h = (keeps_up k [e] h \<and> keeps_up k es (hub_exec e h))"
  by (cases e) simp_all

lemma no_gap_run:
  "k < length (subscribers h) \<Longrightarrow> keeps_up k es h \<Longrightarrow>
   received k es h @ buf (subscribers (hub_run es h) ! k) =
     buf (subscribers h ! k) @ published es"
proof (induction es arbitrary: h)
  case Nil
  then show ?case by simp
next
  case (Cons e es)
  let ?h = "hub_exec e h"
  have k: "k < length (subscribers ?h)"
    using Cons.prems(1) by (simp add: length_subscribers_hub_exec)
  have up: "keeps_up k [e] h" "keeps_up k es ?h"
    using Cons.prems(2) by (simp_all add: keeps_up_Cons [of k e es])
  have "received k (e # es) h @ buf (subscribers (hub_run (e # es) h) ! k) =
        taken k e h @ (received k es ?h @ buf (subscribers (hub_run es ?h) ! k))"
    by simp
  also have "\<dots> = taken k e h @ (buf (subscribers ?h ! k) @ published es)"
    using Cons.IH [OF k up(2)] by simp
  also have "\<dots> = (buf (subscribers h ! k) @ published [e]) @ published es"
    using no_gap_step [OF Cons.prems(1) up(1)] by simp
  finally show ?case by (simp add: published_Cons [of e es])
qed

lemma chan_ok_own_view1: "chan_ok ch \<Longrightarrow> chan_ok (own_view k [e] ch)"
  by (cases e) (auto simp: chan_ok_def try_send_def send_def recv_def split: list.splits)

lemma hub_ok_exec:
  assumes "hub_ok h"
  shows "hub_ok (hub_exec e h)"
  unfolding hub_ok_def
proof (intro allI impI)
  fix i
  assume i: "i < length (subscribers (hub_exec e h))"
  show "chan_ok (subscribers (hub_exec e h) ! i)"
  proof (cases "i < length (subscribers h)")
    case True
    then have "chan_ok (subscribers h ! i)"
      using assms by (simp add: hub_ok_def)
    then show ?thesis
      using True by (simp add: nth_hub_exec chan_ok_own_view1)
  next
    case False
    then have "e = EvSubscribe" and "i = length (subscribers h)"
      using i by (simp_all add: length_subscribers_hub_exec split: if_splits)
    then show ?thesis
      by (simp add: Subscribe_def make_chan_def chan_ok_def)
  qed
qed

lemma hub_ok_run: "hub_ok h \<Longrightarrow> hub_ok (hub_run es h)"
  by (induction es arbitrary: h) (simp_all add: hub_ok_exec)

lemma hub_ok_init: "hub_ok hub_init"
  by (simp add: hub_ok_def hub_init_def)
lemma cap_try_send [simp]: "cap (try_send ch v) = cap ch"
  by (simp add: try_send_def send_def)

lemma cap_own_view [simp]: "cap (own_view k es ch) = cap ch"
  by (induction k es ch rule: own_view.induct) (simp_all add: recv_def split: list.splits)

lemma Write_as_map:
  "hub_exec (EvWrite p) h =
     h\<lparr>sessionLogs := sessionLogs h @ [p],
       subscribers := map (\<lambda>sub. try_send sub p) (subscribers h)\<rparr>"
  by (simp add: Write_def offer_each_map)


section \<open>Invariants of the supervisor\<close>


lemma registered_servers [simp]: "registered (w\<lparr>servers := ss\<rparr>) a = registered w a"
  by (simp add: registered_def)

lemma registered_crashed [simp]: "registered (w\<lparr>crashed := c\<rparr>) a = registered w a"
  by (simp add: registered_def)

lemma piped_snoc: "piped (xs @ [c]) = piped xs @ c @ [CHR 0x0A]"
  by (simp add: piped_def)

lemma fifo_enqueue: "fifo s \<Longrightarrow> fifo (s\<lparr>stdin := (stdin s)\<lparr>buf := buf (stdin s) @ [c]\<rparr>, sent := sent s @ [c]\<rparr>)"
  unfolding fifo_def by (elim exE) (auto)

lemma fifo_dequeue_alive:
  assumes "fifo s" and "buf (stdin s) = c # cs" and "cmd s = Some Alive"
  shows "fifo (s\<lparr>stdin := (stdin s)\<lparr>buf := cs\<rparr>, stdinPipe := stdinPipe s @ c @ [CHR 0x0A]\<rparr>)"
proof -
  from assms obtain xs where "sent s = xs @ c # cs" "stdinPipe s = piped xs"
    by (auto simp: fifo_def)
  then have "sent s = (xs @ [c]) @ [] @ cs \<and> stdinPipe s @ c @ [CHR 0x0A] = piped (xs @ [c])"
    by (simp add: piped_snoc)
  then show ?thesis
    unfolding fifo_def by (intro exI [of _ "xs @ [c]"] exI [of _ "[]"]) simp
qed

lemma fifo_dequeue_dead:
  assumes "fifo s" and "buf (stdin s) = c # cs" and "cmd s \<noteq> Some Alive"
  shows "fifo (s\<lparr>stdin := (stdin s)\<lparr>buf := cs\<rparr>\<rparr>)"
proof -
  from assms obtain xs ys where "sent s = xs @ ys @ c # cs" "stdinPipe s = piped xs"
    by (auto simp: fifo_def)
  then have "sent s = xs @ (ys @ [c]) @ cs \<and> stdinPipe s = piped xs"
    by simp
  then show ?thesis
    using assms(3) unfolding fifo_def by (intro exI [of _ xs] exI [of _ "ys @ [c]"]) simp
qed

lemma fifo_cmd: "fifo s \<Longrightarrow> c \<noteq> Some Alive \<Longrightarrow> fifo (s\<lparr>cmd := c\<rparr>)"
  by (auto simp: fifo_def)

lemma srv_ok_RunCommand: "srv_ok s \<Longrightarrow> srv_ok (snd (Server_RunCommand c s))"
  by (auto simp: Server_RunCommand_def Server_GetStatus_def send_def srv_ok_def chan_ok_def
           dest: fifo_enqueue [of s c])

lemma isRunning_RunCommand: "isRunning (snd (Server_RunCommand c s)) = isRunning s"
  by (simp add: Server_RunCommand_def send_def)

lemma srv_ok_Kill: "srv_ok s \<Longrightarrow> srv_ok (snd (Server_Kill ok s))"
  by (auto simp: Server_Kill_def srv_ok_def chan_ok_def fifo_cmd split: option.splits proc.splits)

lemma isRunning_Kill: "isRunning (snd (Server_Kill ok s)) = isRunning s"
  by (simp add: Server_Kill_def split: option.splits proc.splits)

lemma srv_ok_early_flag: "srv_ok s \<Longrightarrow> srv_ok (early_flag s)"
  by (auto simp: early_flag_def srv_ok_def chan_ok_def fifo_def)

lemma srv_ok_child_exit: "srv_ok s \<Longrightarrow> srv_ok (child_exit s)"
  by (auto simp: child_exit_def srv_ok_def chan_ok_def fifo_cmd)

lemma srv_ok_stdin_writer: "srv_ok s \<Longrightarrow> srv_ok (stdin_writer s)"
proof (cases "buf (stdin s)")
  case Nil
  then show "srv_ok s \<Longrightarrow> srv_ok (stdin_writer s)"
    by (simp add: stdin_writer_def recv_def)
next
  case (Cons c cs)
  assume ok: "srv_ok s"
  show "srv_ok (stdin_writer s)"
  proof (cases "cmd s = Some Alive")
    case True
    then have "stdin_writer s =
       s\<lparr>stdin := (stdin s)\<lparr>buf := cs\<rparr>, stdinPipe := stdinPipe s @ c @ [CHR 0x0A]\<rparr>"
      using Cons by (simp add: stdin_writer_def recv_def)
    moreover have "fifo \<dots>"
      using ok Cons True by (intro fifo_dequeue_alive) (simp_all add: srv_ok_def chan_ok_def)
    ultimately show ?thesis
      using ok Cons by (simp add: srv_ok_def chan_ok_def)
  next
    case False
    show ?thesis
    proof (cases "cmd s = Some Exited")
      case True
      then have "stdin_writer s = s\<lparr>stdin := (stdin s)\<lparr>buf := cs\<rparr>\<rparr>"
        using Cons by (simp add: stdin_writer_def recv_def)
      moreover have "fifo \<dots>"
        using ok Cons False by (intro fifo_dequeue_dead) (simp_all add: srv_ok_def chan_ok_def)
      ultimately show ?thesis
        using ok Cons by (simp add: srv_ok_def chan_ok_def)
    next
      case no: False
      then show ?thesis using ok False by (simp add: stdin_writer_def)
    qed
  qed
qed

lemma early_after_new: "early_after sch None c \<noteq> EarlyUnregisters"
  by (simp add: early_after_def wait_pc_def split: sched.splits option.splits proc.splits)

lemma srv_ok_startInternal: "srv_ok (snd (startInternal l sch new_Server))"
  by (cases l)
     (simp_all add: startInternal_def new_Server_def srv_ok_def chan_ok_def fifo_def make_chan_def piped_def
                    early_after_new)

lemma isRunning_startInternal: "isRunning (snd (startInternal l sch new_Server)) = (l = Spawns)"
  by (cases l) (simp_all add: startInternal_def new_Server_def)

lemma world_okI:
  assumes "\<And>a. activeServer w = Some a \<Longrightarrow> a < length (servers w)"
    and "\<And>a. a < length (servers w) \<Longrightarrow> srv_ok (servers w ! a)"
    and "\<And>a. a < length (servers w) \<Longrightarrow> isRunning (servers w ! a) \<Longrightarrow> activeServer w = Some a"
  shows "world_ok w"
  unfolding world_ok_def registered_def using assms by blast

lemma world_okD:
  assumes "world_ok w"
  shows "activeServer w = Some a \<Longrightarrow> a < length (servers w)"
    and "a < length (servers w) \<Longrightarrow> srv_ok (servers w ! a)"
    and "a < length (servers w) \<Longrightarrow> isRunning (servers w ! a) \<Longrightarrow> activeServer w = Some a"
  using assms unfolding world_ok_def registered_def by blast+

lemma world_ok_local:
  assumes ok: "world_ok w" and a: "a < length (servers w)"
    and f: "srv_ok (f (servers w ! a))"
    and r: "isRunning (f (servers w ! a)) \<Longrightarrow> isRunning (servers w ! a)"
  shows "world_ok (w\<lparr>servers := (servers w)[a := f (servers w ! a)]\<rparr>)"
proof (rule world_okI)
  fix b
  assume "activeServer (w\<lparr>servers := (servers w)[a := f (servers w ! a)]\<rparr>) = Some b"
  then show "b < length (servers (w\<lparr>servers := (servers w)[a := f (servers w ! a)]\<rparr>))"
    using world_okD(1) [OF ok, of b] by simp
next
  fix b
  assume "b < length (servers (w\<lparr>servers := (servers w)[a := f (servers w ! a)]\<rparr>))"
  then show "srv_ok (servers (w\<lparr>servers := (servers w)[a := f (servers w ! a)]\<rparr>) ! b)"
    using world_okD(2) [OF ok, of b] f by (cases "b = a") simp_all
next
  fix b
  assume "b < length (servers (w\<lparr>servers := (servers w)[a := f (servers w ! a)]\<rparr>))"
    and "isRunning (servers (w\<lparr>servers := (servers w)[a := f (servers w ! a)]\<rparr>) ! b)"
  then show "activeServer (w\<lparr>servers := (servers w)[a := f (servers w ! a)]\<rparr>) = Some b"
    using world_okD(3) [OF ok, of b] r by (cases "b = a") simp_all
qed

lemma world_ok_crashed: "world_ok w \<Longrightarrow> world_ok (w\<lparr>crashed := c\<rparr>)"
  by (simp add: world_ok_def)

lemma world_ok_at_server:
  assumes "world_ok w"
    and "\<And>s. srv_ok s \<Longrightarrow> srv_ok (f s)"
    and "\<And>s. isRunning (f s) \<Longrightarrow> isRunning s"
  shows "world_ok (at_server a f w)"
proof (cases "a < length (servers w)")
  case True
  then show ?thesis
    using assms world_okD(2) [OF assms(1) True]
    by (simp add: at_server_def world_ok_local)
next
  case False
  then show ?thesis using assms(1) by (simp add: at_server_def)
qed

lemma world_ok_on_active:
  assumes "world_ok w"
    and "\<And>s. srv_ok s \<Longrightarrow> srv_ok (snd (f s))"
    and "\<And>s. isRunning (snd (f s)) = isRunning s"
  shows "world_ok (snd (on_active f w))"
proof (cases "activeServer w = None \<or> \<not> Server_GetStatus (servers w ! the (activeServer w))")
  case True
  then show ?thesis using assms(1) by (simp add: on_active_def)
next
  case False
  then obtain a where a: "activeServer w = Some a" by auto
  then have len: "a < length (servers w)"
    using world_okD(1) [OF assms(1)] by simp
  have "world_ok (w\<lparr>servers := (servers w)[a := snd (f (servers w ! a))]\<rparr>)"
    using assms(1) len
  proof (rule world_ok_local)
    show "srv_ok (snd (f (servers w ! a)))"
      using world_okD(2) [OF assms(1) len] by (rule assms(2))
    show "isRunning (snd (f (servers w ! a))) \<Longrightarrow> isRunning (servers w ! a)"
      by (simp add: assms(3))
  qed
  then have "world_ok (w\<lparr>servers := (servers w)[a := snd (f (servers w ! a))]\<rparr>
                       \<lparr>crashed := (crashed w \<or> fst (f (servers w ! a)) = Panics)\<rparr>)"
    by (rule world_ok_crashed)
  then show ?thesis
    using False a by (simp add: on_active_def Let_def)
qed

lemma GetStatus_active:
  "GetStatus w = (activeServer w \<noteq> None \<and> Server_GetStatus (servers w ! the (activeServer w)))"
  by (simp add: GetStatus_def split: option.splits)

lemma none_running:
  assumes "world_ok w" and "\<not> GetStatus w" and "a < length (servers w)"
  shows "\<not> isRunning (servers w ! a)"
proof
  assume "isRunning (servers w ! a)"
  then have "activeServer w = Some a"
    using world_okD(3) [OF assms(1) assms(3)] by simp
  then show False
    using assms(2) \<open>isRunning (servers w ! a)\<close> by (simp add: GetStatus_def Server_GetStatus_def)
qed

lemma Start_refused: "GetStatus w \<Longrightarrow> Start l sch w = (Inl ErrServerExists, w)"
  by (simp add: Start_def GetStatus_active)

lemma Start_accepted:
  "\<not> GetStatus w \<Longrightarrow>
   Start l sch w =
     (fst (startInternal l sch new_Server),
      w\<lparr>activeServer := Some (length (servers w)),
        servers := servers w @ [snd (startInternal l sch new_Server)]\<rparr>)"
  by (auto simp: Start_def GetStatus_active new_Server_def Let_def)

lemma world_ok_Start:
  assumes "world_ok w"
  shows "world_ok (snd (Start l sch w))"
proof (cases "GetStatus w")
  case True
  then show ?thesis using assms by (simp add: Start_refused)
next
  case False
  let ?s = "snd (startInternal l sch new_Server)"
  let ?w = "w\<lparr>activeServer := Some (length (servers w)), servers := servers w @ [?s]\<rparr>"
  have "world_ok ?w"
  proof (rule world_okI)
    fix a assume "activeServer ?w = Some a"
    then show "a < length (servers ?w)" by auto
  next
    fix a assume "a < length (servers ?w)"
    then show "srv_ok (servers ?w ! a)"
      using world_okD(2) [OF assms, of a] srv_ok_startInternal [of l sch]
      by (cases "a = length (servers w)") (simp_all add: nth_append)
  next
    fix a assume a: "a < length (servers ?w)" and run: "isRunning (servers ?w ! a)"
    show "activeServer ?w = Some a"
    proof (cases "a = length (servers w)")
      case True
      then show ?thesis by simp
    next
      case False
      then have "a < length (servers w)" using a by simp
      then show ?thesis
        using none_running [OF assms \<open>\<not> GetStatus w\<close>, of a] run by (simp add: nth_append)
    qed
  qed
  then show ?thesis using False by (simp add: Start_accepted)
qed

lemma world_ok_early_unregister:
  assumes ok: "world_ok w" and a: "a < length (servers w)"
  shows "world_ok (early_unregister a w)"
proof (cases "early (servers w ! a) = EarlyUnregisters")
  case False
  then show ?thesis using ok by (simp add: early_unregister_def)
next
  case True
  let ?s = "servers w ! a"
  have sa: "srv_ok ?s" by (rule world_okD(2) [OF ok a])
  then have nr: "\<not> isRunning ?s" using True by (simp add: srv_ok_def chan_ok_def)
  let ?w = "w\<lparr>servers := (servers w)[a := ?s\<lparr>early := EarlyGone\<rparr>]\<rparr>"
  have 1: "world_ok ?w"
    using ok a
  proof (rule world_ok_local [where f = "\<lambda>s. s\<lparr>early := EarlyGone\<rparr>"])
    show "srv_ok (?s\<lparr>early := EarlyGone\<rparr>)"
      using sa by (simp add: srv_ok_def chan_ok_def fifo_def)
  qed simp
  let ?v = "w\<lparr>activeServer := (if activeServer w = Some a then None else activeServer w),
               servers := (servers w)[a := ?s\<lparr>early := EarlyGone\<rparr>]\<rparr>"
  have "world_ok ?v"
  proof (rule world_okI)
    fix b assume "activeServer ?v = Some b"
    then show "b < length (servers ?v)"
      using world_okD(1) [OF ok, of b] by (simp split: if_splits)
  next
    fix b assume "b < length (servers ?v)"
    then show "srv_ok (servers ?v ! b)"
      using world_okD(2) [OF 1, of b] by simp
  next
    fix b assume b: "b < length (servers ?v)" and run: "isRunning (servers ?v ! b)"
    have "b \<noteq> a" using run nr a by auto
    then have "isRunning (servers w ! b)" using run by simp
    then have "activeServer w = Some b" using world_okD(3) [OF ok, of b] b by simp
    then show "activeServer ?v = Some b"
      using \<open>b \<noteq> a\<close> by simp
  qed
  then show ?thesis using True by (simp add: early_unregister_def)
qed

lemma world_ok_exit_watcher:
  assumes ok: "world_ok w" and a: "a < length (servers w)"
  shows "world_ok (exit_watcher a w)"
proof (cases "watcher (servers w ! a) \<and> cmd (servers w ! a) = Some Exited")
  case False
  then show ?thesis using ok by (auto simp: exit_watcher_def Let_def)
next
  case True
  let ?s = "servers w ! a"
  have sa: "srv_ok ?s" by (rule world_okD(2) [OF ok a])
  show ?thesis
  proof (cases "done_closed ?s")
    case closed: True
    have "world_ok (w\<lparr>servers := (servers w)[a := ?s\<lparr>isRunning := False, watcher := False\<rparr>]\<rparr>)"
      using ok a
    proof (rule world_ok_local [where f = "\<lambda>s. s\<lparr>isRunning := False, watcher := False\<rparr>"])
      show "srv_ok (?s\<lparr>isRunning := False, watcher := False\<rparr>)"
        using sa by (simp add: srv_ok_def chan_ok_def fifo_def)
    qed simp
    then have "world_ok (w\<lparr>servers := (servers w)[a := ?s\<lparr>isRunning := False, watcher := False\<rparr>]\<rparr>
                          \<lparr>crashed := True\<rparr>)"
      by (rule world_ok_crashed)
    then show ?thesis using True closed by (simp add: exit_watcher_def Let_def)
  next
    case opened: False
    let ?s' = "?s\<lparr>isRunning := False, done_closed := True, watcher := False\<rparr>"
    let ?w = "w\<lparr>activeServer := None, servers := (servers w)[a := ?s']\<rparr>"
    have "isRunning ?s" using sa True opened by (simp add: srv_ok_def chan_ok_def)
    then have act: "activeServer w = Some a" using world_okD(3) [OF ok a] by simp
    have "world_ok ?w"
    proof (rule world_okI)
      fix b assume "activeServer ?w = Some b"
      then show "b < length (servers ?w)" by simp
    next
      fix b assume "b < length (servers ?w)"
      then show "srv_ok (servers ?w ! b)"
        using world_okD(2) [OF ok, of b] sa
        by (cases "b = a") (simp_all add: srv_ok_def chan_ok_def fifo_def)
    next
      fix b assume b: "b < length (servers ?w)" and run: "isRunning (servers ?w ! b)"
      have "b \<noteq> a" using run a by auto
      then have "isRunning (servers w ! b)" using run by simp
      then have "activeServer w = Some b" using world_okD(3) [OF ok, of b] b by simp
      then show "activeServer ?w = Some b" using act \<open>b \<noteq> a\<close> by simp
    qed
    then show ?thesis using True opened by (simp add: exit_watcher_def Let_def)
  qed
qed

lemma isRunning_early_flag: "isRunning (early_flag s) \<Longrightarrow> isRunning s"
  by (simp add: early_flag_def split: if_splits)

lemma isRunning_stdin_writer: "isRunning (stdin_writer s) \<Longrightarrow> isRunning s"
  by (simp add: stdin_writer_def recv_def split: if_splits list.splits)

lemma isRunning_child_exit: "isRunning (child_exit s) \<Longrightarrow> isRunning s"
  by (simp add: child_exit_def split: if_splits)

lemma world_ok_exec_event: "world_ok w \<Longrightarrow> world_ok (exec_event e w)"
proof (cases e)
  case (CallStart l sch)
  assume "world_ok w"
  then show ?thesis using CallStart by (simp add: world_ok_Start)
next
  case CallStop
  assume "world_ok w"
  then show ?thesis using CallStop
    by (simp add: Stop_def world_ok_on_active srv_ok_RunCommand isRunning_RunCommand)
next
  case (CallKill ok)
  assume "world_ok w"
  then show ?thesis using CallKill
    by (simp add: Kill_def world_ok_on_active srv_ok_Kill isRunning_Kill)
next
  case (CallRunCommand c)
  assume "world_ok w"
  then show ?thesis using CallRunCommand
    by (simp add: RunCommand_def world_ok_on_active srv_ok_RunCommand isRunning_RunCommand)
next
  case (EarlyFlag a)
  assume "world_ok w"
  then show ?thesis using EarlyFlag
    by (simp add: world_ok_at_server srv_ok_early_flag isRunning_early_flag)
next
  case (EarlyUnregister a)
  assume "world_ok w"
  then show ?thesis using EarlyUnregister by (simp add: world_ok_early_unregister)
next
  case (ExitWatcher a)
  assume "world_ok w"
  then show ?thesis using ExitWatcher by (simp add: world_ok_exit_watcher)
next
  case (StdinWriter a)
  assume "world_ok w"
  then show ?thesis using StdinWriter
    by (simp add: world_ok_at_server srv_ok_stdin_writer isRunning_stdin_writer)
next
  case (ChildExit a)
  assume "world_ok w"
  then show ?thesis using ChildExit
    by (simp add: world_ok_at_server srv_ok_child_exit isRunning_child_exit)
qed

lemma world_ok_exec: "world_ok w \<Longrightarrow> world_ok (exec e w)"
  by (simp add: exec_def world_ok_exec_event)

lemma world_ok_run: "world_ok w \<Longrightarrow> world_ok (run es w)"
  by (induction es arbitrary: w) (simp_all add: world_ok_exec)

lemma world_ok_init: "world_ok world_init"
  by (simp add: world_ok_def world_init_def registered_def)

section \<open>The package functions in reachable states\<close>


lemma world_ok_reach: "world_ok (run evs world_init)"
  by (simp add: world_ok_run world_ok_init)

lemma active_in_store:
  assumes "world_ok w" and "GetStatus w"
  shows "the (activeServer w) < length (servers w)"
    and "isRunning (servers w ! the (activeServer w))"
    and "srv_ok (servers w ! the (activeServer w))"
proof -
  from assms(2) obtain a where a: "activeServer w = Some a" and r: "isRunning (servers w ! a)"
    by (auto simp: GetStatus_def Server_GetStatus_def split: option.splits)
  then have len: "a < length (servers w)"
    using world_okD(1) [OF assms(1)] by simp
  show "the (activeServer w) < length (servers w)" using a len by simp
  show "isRunning (servers w ! the (activeServer w))" using a r by simp
  show "srv_ok (servers w ! the (activeServer w))"
    using a world_okD(2) [OF assms(1) len] by simp
qed

lemma on_active_not_running: "\<not> GetStatus w \<Longrightarrow> on_active f w = (Returns (Inl ErrNotRunning), w)"
  by (auto simp: on_active_def GetStatus_active)

lemma on_active_running:
  "GetStatus w \<Longrightarrow>
   on_active f w =
     (fst (f (servers w ! the (activeServer w))),
      w\<lparr>servers := (servers w)[the (activeServer w) := snd (f (servers w ! the (activeServer w)))],
        crashed := (crashed w \<or> fst (f (servers w ! the (activeServer w))) = Panics)\<rparr>)"
  by (auto simp: on_active_def GetStatus_active Let_def)

lemma Server_RunCommand_running:
  "isRunning s \<Longrightarrow> cap (stdin s) = 100 \<Longrightarrow>
   Server_RunCommand c s =
     (if length (buf (stdin s)) < 100
      then (Returns (Inr ()), s\<lparr>stdin := (stdin s)\<lparr>buf := buf (stdin s) @ [c]\<rparr>, sent := sent s @ [c]\<rparr>)
      else (Blocks, s))"
  by (simp add: Server_RunCommand_def Server_GetStatus_def send_def)



lemma RunCommand_result:
  assumes "world_ok w" and "GetStatus w"
  shows "fst (RunCommand c w) =
           (if length (buf (stdin (servers w ! the (activeServer w)))) < 100
            then Returns (Inr ()) else Blocks)"
proof -
  have "isRunning (servers w ! the (activeServer w))"
    and "cap (stdin (servers w ! the (activeServer w))) = 100"
    using active_in_store [OF assms] by (simp_all add: srv_ok_def chan_ok_def)
  then show ?thesis
    using assms(2) by (simp add: RunCommand_def on_active_running Server_RunCommand_running)
qed

lemma Stop_is_RunCommand: "Stop w = RunCommand ''stop'' w"
  by (simp add: Stop_def RunCommand_def)

section \<open>Start, alone and in sequence\<close>

lemma fst_startInternal:
  "fst (startInternal l sch new_Server) = (if l = Spawns then Inr () else Inl (launch_error l))"
  by (cases l) (simp_all add: startInternal_def new_Server_def launch_error_def)

lemma cmd_startInternal:
  "cmd (snd (startInternal l sch new_Server)) = Some (if l = Spawns then Alive else Unstarted)"
  by (cases l) (simp_all add: startInternal_def new_Server_def)

lemma GetStatus_Start:
  "\<not> GetStatus w \<Longrightarrow> GetStatus (snd (Start l sch w)) = (l = Spawns)"
  by (simp add: Start_accepted GetStatus_def Server_GetStatus_def isRunning_startInternal)

lemma Start_not_refused:
  "\<not> GetStatus w \<Longrightarrow> fst (Start l sch w) \<noteq> Inl ErrServerExists"
  by (simp add: Start_accepted fst_startInternal launch_error_def split: launch.splits)

lemma starts_refused:
  "GetStatus w \<Longrightarrow> starts ls w = (replicate (length ls) (Inl ErrServerExists), w)"
  by (induction ls) (auto simp: Start_refused)

lemma starts_append:
  "starts (xs @ ys) w =
     (fst (starts xs w) @ fst (starts ys (snd (starts xs w))), snd (starts ys (snd (starts xs w))))"
  by (induction xs arbitrary: w) (auto simp: Let_def split: prod.splits)

lemma starts_all_fail:
  "\<not> GetStatus w \<Longrightarrow> \<forall>x \<in> set fails. fst x \<noteq> Spawns \<Longrightarrow>
   fst (starts fails w) = map (\<lambda>x. Inl (launch_error (fst x))) fails
   \<and> \<not> GetStatus (snd (starts fails w))
   \<and> length (servers (snd (starts fails w))) = length (servers w) + length fails"
proof (induction fails arbitrary: w)
  case Nil
  then show ?case by simp
next
  case (Cons x fails)
  obtain l sch where x: "x = (l, sch)" by (cases x)
  have l: "l \<noteq> Spawns" using Cons.prems(2) x by simp
  have n: "\<not> GetStatus (snd (Start l sch w))"
    using Cons.prems(1) l by (simp add: GetStatus_Start)
  have len: "length (servers (snd (Start l sch w))) = Suc (length (servers w))"
    using Cons.prems(1) by (simp add: Start_accepted)
  have r: "fst (Start l sch w) = Inl (launch_error l)"
    using Cons.prems(1) l by (simp add: Start_accepted fst_startInternal)
  show ?case
    using Cons.IH [OF n] Cons.prems(2) x len r by (simp add: Let_def)
qed

lemma one_running:
  assumes "world_ok w" and "a < length (servers w)" and "b < length (servers w)"
    and "isRunning (servers w ! a)" and "isRunning (servers w ! b)"
  shows "a = b \<and> activeServer w = Some a"
  using world_okD(3) [OF assms(1) assms(2) assms(4)] world_okD(3) [OF assms(1) assms(3) assms(5)]
  by simp

section \<open>The status of a server whose first goroutine returned at once\<close>

lemma steady_RunCommand: "steady (snd (Server_RunCommand c s)) = steady s"
  by (simp add: Server_RunCommand_def send_def steady_def)

lemma steady_Kill: "steady (snd (Server_Kill ok s)) = steady s"
  by (simp add: Server_Kill_def steady_def split: option.splits proc.splits)

lemma steady_early_flag: "steady s \<Longrightarrow> steady (early_flag s)"
  by (simp add: early_flag_def steady_def)

lemma steady_stdin_writer: "steady (stdin_writer s) = steady s"
  by (simp add: stdin_writer_def recv_def steady_def split: list.splits)

lemma steady_child_exit: "steady (child_exit s) = steady s"
  by (simp add: child_exit_def steady_def)

lemma steady_at_server:
  assumes "a < length (servers w)" and "steady (servers w ! a)"
    and "\<And>s. steady s \<Longrightarrow> steady (f s)"
  shows "a < length (servers (at_server b f w)) \<and> steady (servers (at_server b f w) ! a)"
  using assms by (cases "b = a") (simp_all add: at_server_def)

lemma steady_on_active:
  assumes "a < length (servers w)" and "steady (servers w ! a)"
    and "\<And>s. steady (snd (f s)) = steady s"
  shows "a < length (servers (snd (on_active f w))) \<and> steady (servers (snd (on_active f w)) ! a)"
  using assms by (cases "the (activeServer w) = a") (simp_all add: on_active_def Let_def)

lemma steady_Start:
  assumes "a < length (servers w)" and "steady (servers w ! a)"
  shows "a < length (servers (snd (Start l sch w))) \<and> steady (servers (snd (Start l sch w)) ! a)"
  using assms by (simp add: Start_def Let_def nth_append)

lemma steady_early_unregister:
  assumes "a < length (servers w)" and "steady (servers w ! a)"
  shows "a < length (servers (early_unregister b w))
         \<and> steady (servers (early_unregister b w) ! a)"
  using assms by (cases "b = a") (auto simp: early_unregister_def steady_def)

lemma steady_exit_watcher:
  assumes "a < length (servers w)" and "steady (servers w ! a)" and "b \<noteq> a"
  shows "a < length (servers (exit_watcher b w)) \<and> steady (servers (exit_watcher b w) ! a)"
  using assms by (simp add: exit_watcher_def Let_def)

lemma steady_exec:
  assumes "a < length (servers w)" and "steady (servers w ! a)" and "e \<noteq> ExitWatcher a"
  shows "a < length (servers (exec e w)) \<and> steady (servers (exec e w) ! a)"
proof (cases "crashed w")
  case True
  then show ?thesis using assms by (simp add: exec_def)
next
  case False
  have "a < length (servers (exec_event e w)) \<and> steady (servers (exec_event e w) ! a)"
  proof (cases e)
    case (CallStart l sch)
    then show ?thesis using steady_Start [OF assms(1,2)] by simp
  next
    case CallStop
    then show ?thesis
      using steady_on_active [OF assms(1,2), of "Server_RunCommand ''stop''"]
      by (simp add: Stop_def steady_RunCommand)
  next
    case (CallKill ok)
    then show ?thesis
      using steady_on_active [OF assms(1,2), of "Server_Kill ok"]
      by (simp add: Kill_def steady_Kill)
  next
    case (CallRunCommand c)
    then show ?thesis
      using steady_on_active [OF assms(1,2), of "Server_RunCommand c"]
      by (simp add: RunCommand_def steady_RunCommand)
  next
    case (EarlyFlag b)
    then show ?thesis
      using steady_at_server [OF assms(1,2), of early_flag b] by (simp add: steady_early_flag)
  next
    case (EarlyUnregister b)
    then show ?thesis using steady_early_unregister [OF assms(1,2)] assms(1,2) by simp
  next
    case (ExitWatcher b)
    then have "b \<noteq> a" using assms(3) by simp
    then show ?thesis using steady_exit_watcher [OF assms(1,2)] ExitWatcher assms(1,2) by simp
  next
    case (StdinWriter b)
    then show ?thesis
      using steady_at_server [OF assms(1,2), of stdin_writer b] by (simp add: steady_stdin_writer)
  next
    case (ChildExit b)
    then show ?thesis
      using steady_at_server [OF assms(1,2), of child_exit b] by (simp add: steady_child_exit)
  qed
  then show ?thesis using False by (simp add: exec_def)
qed

lemma steady_run:
  "a < length (servers w) \<Longrightarrow> steady (servers w ! a) \<Longrightarrow> ExitWatcher a \<notin> set es \<Longrightarrow>
   a < length (servers (run es w)) \<and> steady (servers (run es w) ! a)"
proof (induction es arbitrary: w)
  case Nil
  then show ?case by simp
next
  case (Cons e es)
  have e: "e \<noteq> ExitWatcher a" and es: "ExitWatcher a \<notin> set es"
    using Cons.prems(3) by auto
  have "a < length (servers (exec e w)) \<and> steady (servers (exec e w) ! a)"
    using Cons.prems(1,2) e by (rule steady_exec)
  then show ?case using Cons.IH [OF _ _ es] by simp
qed

lemma steady_after_Start:
  "\<not> GetStatus w \<Longrightarrow>
   steady (servers (snd (Start Spawns ReadsBeforeCommand w)) ! length (servers w))"
  by (simp add: Start_accepted startInternal_def new_Server_def steady_def early_after_def
                wait_pc_def)

lemma GetStatus_running:
  assumes "world_ok w" and "a < length (servers w)" and "isRunning (servers w ! a)"
  shows "GetStatus w"
  using world_okD(3) [OF assms] assms(3) by (simp add: GetStatus_def Server_GetStatus_def)

text \<open>When the first goroutine has returned at once, the status stays true until the exit watcher runs.\<close>

lemma Status_true_until_exit_watcher:
  assumes "\<not> GetStatus (run evs world_init)"
    and "ExitWatcher (length (servers (run evs world_init))) \<notin> set es"
  shows "GetStatus (run es (snd (Start Spawns ReadsBeforeCommand (run evs world_init))))"
proof -
  let ?w = "run evs world_init"
  let ?w1 = "snd (Start Spawns ReadsBeforeCommand ?w)"
  have ok: "world_ok (run es ?w1)"
    by (simp add: world_ok_run world_ok_Start world_ok_reach)
  have "length (servers ?w) < length (servers ?w1)"
    using assms(1) by (simp add: Start_accepted)
  then have "length (servers ?w) < length (servers (run es ?w1))
             \<and> steady (servers (run es ?w1) ! length (servers ?w))"
    using steady_after_Start [OF assms(1)] assms(2) by (rule steady_run)
  then show ?thesis
    using GetStatus_running [OF ok, of "length (servers (run evs world_init))"]
    by (simp add: steady_def)
qed

lemma exit_watcher_clears:
  assumes "a < length (servers w)" and "steady (servers w ! a)"
    and "cmd (servers w ! a) = Some Exited" and "\<not> crashed w"
  shows "\<not> GetStatus (exec (ExitWatcher a) w) \<and> \<not> crashed (exec (ExitWatcher a) w)"
  using assms by (simp add: exec_def exit_watcher_def Let_def steady_def GetStatus_def)

lemma idle_local:
  assumes "idle w" and "\<And>s. isRunning (f s) \<Longrightarrow> isRunning s"
  shows "idle (w\<lparr>servers := (servers w)[a := f (servers w ! a)]\<rparr>)"
  unfolding idle_def
proof (intro allI impI)
  fix b
  assume "b < length (servers (w\<lparr>servers := (servers w)[a := f (servers w ! a)]\<rparr>))"
  then show "\<not> isRunning (servers (w\<lparr>servers := (servers w)[a := f (servers w ! a)]\<rparr>) ! b)"
    using assms by (cases "b = a") (auto simp: idle_def)
qed

lemma idle_GetStatus:
  assumes "world_ok w" and "idle w"
  shows "\<not> GetStatus w"
proof (cases "activeServer w")
  case None
  then show ?thesis by (simp add: GetStatus_def)
next
  case (Some a)
  then have "a < length (servers w)"
    using world_okD(1) [OF assms(1)] by simp
  then have "\<not> isRunning (servers w ! a)"
    using assms(2) by (simp add: idle_def)
  then show ?thesis
    using Some by (simp add: GetStatus_def Server_GetStatus_def)
qed

lemma idle_crashed [simp]: "idle (w\<lparr>crashed := c\<rparr>) = idle w"
  by (simp add: idle_def)

lemma idle_activeServer [simp]: "idle (w\<lparr>activeServer := x\<rparr>) = idle w"
  by (simp add: idle_def)

lemma idle_at_server:
  "idle w \<Longrightarrow> (\<And>s. isRunning (f s) \<Longrightarrow> isRunning s) \<Longrightarrow> idle (at_server a f w)"
  by (simp add: at_server_def idle_local)

lemma idle_on_active:
  assumes "idle w" and "\<And>s. isRunning (snd (f s)) = isRunning s"
  shows "idle (snd (on_active f w))"
proof -
  have "idle (w\<lparr>servers := (servers w)[the (activeServer w) :=
                  snd (f (servers w ! the (activeServer w)))]\<rparr>)"
    using assms(1) by (rule idle_local) (simp add: assms(2))
  then show ?thesis
    using assms(1) by (simp add: on_active_def Let_def)
qed

lemma idle_updI:
  assumes "idle w" and "servers w' = (servers w)[a := s']"
    and "isRunning s' \<Longrightarrow> isRunning (servers w ! a)"
  shows "idle w'"
  unfolding idle_def
proof (intro allI impI)
  fix b
  assume "b < length (servers w')"
  then show "\<not> isRunning (servers w' ! b)"
    using assms by (cases "b = a") (auto simp: idle_def)
qed

lemma idle_early_unregister:
  assumes "idle w"
  shows "idle (early_unregister a w)"
proof (cases "early (servers w ! a) = EarlyUnregisters")
  case True
  show ?thesis
    using assms
    by (rule idle_updI [where a = a and s' = "(servers w ! a)\<lparr>early := EarlyGone\<rparr>"])
       (simp_all add: early_unregister_def True)
next
  case False
  then show ?thesis using assms by (simp add: early_unregister_def)
qed

lemma idle_exit_watcher:
  assumes "idle w"
  shows "idle (exit_watcher a w)"
proof (cases "watcher (servers w ! a) \<and> cmd (servers w ! a) = Some Exited")
  case False
  then show ?thesis using assms by (auto simp: exit_watcher_def Let_def)
next
  case True
  show ?thesis
  proof (cases "done_closed (servers w ! a)")
    case closed: True
    show ?thesis
      using assms
      by (rule idle_updI [where a = a
            and s' = "(servers w ! a)\<lparr>isRunning := False, watcher := False\<rparr>"])
         (simp_all add: exit_watcher_def Let_def True closed)
  next
    case opened: False
    show ?thesis
      using assms
      by (rule idle_updI [where a = a
            and s' = "(servers w ! a)\<lparr>isRunning := False, done_closed := True,
                                      watcher := False\<rparr>"])
         (simp_all add: exit_watcher_def Let_def True opened)
  qed
qed

lemma idle_exec:
  assumes "idle w" and "\<not> is_start e"
  shows "idle (exec e w)"
proof (cases "crashed w")
  case True
  then show ?thesis using assms(1) by (simp add: exec_def)
next
  case False
  have "idle (exec_event e w)"
  proof (cases e)
    case (CallStart l sch)
    then show ?thesis using assms(2) by simp
  next
    case CallStop
    then show ?thesis
      using assms(1) by (simp add: Stop_def idle_on_active isRunning_RunCommand)
  next
    case (CallKill ok)
    then show ?thesis
      using assms(1) by (simp add: Kill_def idle_on_active isRunning_Kill)
  next
    case (CallRunCommand c)
    then show ?thesis
      using assms(1) by (simp add: RunCommand_def idle_on_active isRunning_RunCommand)
  next
    case (EarlyFlag b)
    then show ?thesis
      using assms(1) by (simp add: idle_at_server isRunning_early_flag)
  next
    case (EarlyUnregister b)
    then show ?thesis using assms(1) by (simp add: idle_early_unregister)
  next
    case (ExitWatcher b)
    then show ?thesis using assms(1) by (simp add: idle_exit_watcher)
  next
    case (StdinWriter b)
    then show ?thesis
      using assms(1) by (simp add: idle_at_server isRunning_stdin_writer)
  next
    case (ChildExit b)
    then show ?thesis
      using assms(1) by (simp add: idle_at_server isRunning_child_exit)
  qed
  then show ?thesis using False by (simp add: exec_def)
qed

lemma idle_run: "idle w \<Longrightarrow> \<forall>e \<in> set es. \<not> is_start e \<Longrightarrow> idle (run es w)"
  by (induction es arbitrary: w) (simp_all add: idle_exec)

lemma idle_after_exit_watcher:
  assumes ok: "world_ok w" and a: "a < length (servers w)" and st: "steady (servers w ! a)"
    and ex: "cmd (servers w ! a) = Some Exited" and nc: "\<not> crashed w"
  shows "idle (exec (ExitWatcher a) w)"
  unfolding idle_def
proof (intro allI impI)
  fix b
  assume b: "b < length (servers (exec (ExitWatcher a) w))"
  have w': "exec (ExitWatcher a) w =
        w\<lparr>activeServer := None,
          servers := (servers w)[a := (servers w ! a)\<lparr>isRunning := False, done_closed := True,
                                                       watcher := False\<rparr>]\<rparr>"
    using a st ex nc by (simp add: exec_def exit_watcher_def Let_def steady_def)
  show "\<not> isRunning (servers (exec (ExitWatcher a) w) ! b)"
  proof (cases "b = a")
    case True
    then show ?thesis using a by (simp add: w')
  next
    case False
    have "isRunning (servers w ! a)" using st by (simp add: steady_def)
    then have "\<not> isRunning (servers w ! b)"
      using one_running [OF ok a, of b] b False by (auto simp: w')
    then show ?thesis using False by (simp add: w')
  qed
qed

text \<open>
  When the first goroutine has returned at once and the exit watcher has run after the
  child's end, the status is false, and it stays false until the next \<^verbatim>\<open>Start\<close>.
\<close>

lemma Status_false_after_exit_watcher:
  assumes "\<not> GetStatus (run evs world_init)"
    and "ExitWatcher (length (servers (run evs world_init))) \<notin> set es"
    and "cmd (servers (run es (snd (Start Spawns ReadsBeforeCommand (run evs world_init))))
              ! length (servers (run evs world_init))) = Some Exited"
    and "\<not> crashed (run es (snd (Start Spawns ReadsBeforeCommand (run evs world_init))))"
    and "\<forall>e \<in> set es'. \<not> is_start e"
  shows "\<not> GetStatus (run es' (exec (ExitWatcher (length (servers (run evs world_init))))
                                 (run es (snd (Start Spawns ReadsBeforeCommand
                                                (run evs world_init))))))"
proof -
  let ?w = "run evs world_init"
  let ?w1 = "snd (Start Spawns ReadsBeforeCommand ?w)"
  let ?w2 = "run es ?w1"
  let ?a = "length (servers ?w)"
  have ok: "world_ok ?w2"
    by (simp add: world_ok_run world_ok_Start world_ok_reach)
  have "?a < length (servers ?w1)"
    using assms(1) by (simp add: Start_accepted)
  then have st: "?a < length (servers ?w2) \<and> steady (servers ?w2 ! ?a)"
    using steady_after_Start [OF assms(1)] assms(2) by (rule steady_run)
  have "idle (exec (ExitWatcher ?a) ?w2)"
    using ok st assms(3,4) by (simp add: idle_after_exit_watcher)
  then have "idle (run es' (exec (ExitWatcher ?a) ?w2))"
    using assms(5) by (rule idle_run)
  moreover have "world_ok (run es' (exec (ExitWatcher ?a) ?w2))"
    using ok by (simp add: world_ok_run world_ok_exec)
  ultimately show ?thesis
    by (simp add: idle_GetStatus)
qed


section \<open>The example states, evaluated\<close>

lemma hub_slow_eq:
  "hub_slow =
     \<lparr>sessionLogs = replicate 101 ''x'',
      subscribers = [\<lparr>cap = 100, buf = replicate 100 ''x''\<rparr>]\<rparr>"
  unfolding hub_slow_def by code_simp

lemma world_full_eq:
  "world_full =
     \<lparr>activeServer = Some 0,
      servers = [\<lparr>cmd = Some Alive, stdin = \<lparr>cap = 100, buf = replicate 100 ''list''\<rparr>,
                  done_closed = False, isRunning = True, stdinPipe = [],
                  sent = replicate 100 ''list'', early = EarlyGone, watcher = True\<rparr>],
      crashed = False\<rparr>"
  unfolding world_full_def by code_simp

lemma run_start_eq:
  "run [CallStart Spawns ReadsBeforeCommand] world_init =
     \<lparr>activeServer = Some 0,
      servers = [\<lparr>cmd = Some Alive, stdin = \<lparr>cap = 100, buf = []\<rparr>,
                  done_closed = False, isRunning = True, stdinPipe = [],
                  sent = [], early = EarlyGone, watcher = True\<rparr>],
      crashed = False\<rparr>"
  by code_simp

section \<open>Claims about the session log\<close>

text \<open>
  C6. \<^verbatim>\<open>Write\<close> always returns (it is a total function whose result is the length of
  the line, never an error): it appends the line to the history, and every registered
  subscriber is offered the line: a subscriber whose buffer has room gets it at the end of
  its buffer, a subscriber whose buffer is full is left as it was, and neither the history
  nor the other subscribers depend on that.
\<close>

theorem Write_appends_and_offers:
  "fst (Write p h) = Inr (length p)
   \<and> sessionLogs (snd (Write p h)) = sessionLogs h @ [p]
   \<and> length (subscribers (snd (Write p h))) = length (subscribers h)
   \<and> (\<forall>i < length (subscribers h).
        subscribers (snd (Write p h)) ! i =
          (if length (buf (subscribers h ! i)) < cap (subscribers h ! i)
           then (subscribers h ! i)\<lparr>buf := buf (subscribers h ! i) @ [p]\<rparr>
           else subscribers h ! i))"
  by (simp add: Write_def nth_offer_each try_send_room try_send_full)

text \<open>
  At a hub with a full subscriber and a new one: the line is dropped for the first, reaches
  the second and is in the history.
\<close>

theorem Write_appends_and_offers_witness:
  "0 < length (subscribers (snd (Subscribe hub_slow)))
   \<and> 1 < length (subscribers (snd (Subscribe hub_slow)))
   \<and> subscribers (snd (Write ''y'' (snd (Subscribe hub_slow)))) ! 0 =
        \<lparr>cap = 100, buf = replicate 100 ''x''\<rparr>
   \<and> subscribers (snd (Write ''y'' (snd (Subscribe hub_slow)))) ! 1 = \<lparr>cap = 100, buf = [''y'']\<rparr>
   \<and> sessionLogs (snd (Write ''y'' (snd (Subscribe hub_slow)))) = replicate 101 ''x'' @ [''y'']"
  using Write_appends_and_offers [of "''y''" "snd (Subscribe hub_slow)"]
  by (simp add: hub_slow_eq Subscribe_def make_chan_def)

text \<open>
  C3, as stated, fails: the handler of the only subscriber has taken nothing, its buffer is
  full, and after one more delivery attempt the subscriber is still registered.
\<close>

theorem disconnected_subscriber_stays:
  "length (subscribers hub_slow) = 1 \<and> length (buf (subscribers hub_slow ! 0)) = 100
   \<and> length (subscribers (hub_exec (EvWrite ''y'') hub_slow)) = 1"
  by (simp add: hub_slow_eq Write_def Let_def)

text \<open>
  C3, amended. No operation of the hub removes a subscriber: over any run of writes,
  subscriptions and receives the list of subscribers does not get shorter, and every
  subscriber registered before is still at its place, with the channel it had, changed only
  by the lines offered to it and the lines its own handler took.
\<close>

theorem subscribers_never_removed:
  "length (subscribers h) \<le> length (subscribers (hub_run es h))
   \<and> (\<forall>k < length (subscribers h).
        subscribers (hub_run es h) ! k = own_view k es (subscribers h ! k)
        \<and> cap (subscribers (hub_run es h) ! k) = cap (subscribers h ! k))"
  by (simp add: length_subscribers_hub_run nth_hub_run)

theorem subscribers_never_removed_witness:
  "0 < length (subscribers hub_slow)
   \<and> cap (subscribers (hub_run [EvWrite ''y'', EvReceive 0, EvSubscribe] hub_slow) ! 0) = 100"
proof -
  have len: "0 < length (subscribers hub_slow)"
    by (simp add: hub_slow_eq)
  have "cap (subscribers (hub_run [EvWrite ''y'', EvReceive 0, EvSubscribe] hub_slow) ! 0) =
        cap (subscribers hub_slow ! 0)"
    using subscribers_never_removed [of hub_slow "[EvWrite ''y'', EvReceive 0, EvSubscribe]"] len
    by blast
  moreover have "cap (subscribers hub_slow ! 0) = 100"
    by (simp add: hub_slow_eq)
  ultimately show ?thesis
    using len by simp
qed

text \<open>
  C5. A client subscribes when the lines of \<open>pre\<close> have been written, in a hub \<open>h\<close> with
  any other subscribers. The snapshot is exactly those lines in order, and the history
  goes on with the lines written later. A write is one step that appends the line and
  offers it to every subscriber. The new channel, empty at first, depends on the later
  writes and on its own handler only, whatever the other subscribers do: every line is
  offered to it in order. While its buffer has room at every write, the lines its handler
  took followed by the lines in its buffer are exactly the lines written since it
  subscribed.
\<close>

theorem Subscribe_snapshot_then_every_line:
  "GetSessionLogs (snd (Subscribe (hub_run pre hub_init))) = published pre
   \<and> sessionLogs (hub_run post (snd (Subscribe (hub_run pre hub_init)))) =
        published pre @ published post
   \<and> hub_exec (EvWrite p) h =
        h\<lparr>sessionLogs := sessionLogs h @ [p],
          subscribers := map (\<lambda>sub. try_send sub p) (subscribers h)\<rparr>
   \<and> fst (Subscribe h) = length (subscribers h)
   \<and> subscribers (hub_run post (snd (Subscribe h))) ! fst (Subscribe h) =
        own_view (fst (Subscribe h)) post (make_chan 100)
   \<and> (keeps_up (fst (Subscribe h)) post (snd (Subscribe h)) \<longrightarrow>
        received (fst (Subscribe h)) post (snd (Subscribe h))
          @ buf (subscribers (hub_run post (snd (Subscribe h))) ! fst (Subscribe h))
        = published post)"
proof -
  have k: "fst (Subscribe h) < length (subscribers (snd (Subscribe h)))"
    by (simp add: Subscribe_def)
  have new: "subscribers (snd (Subscribe h)) ! fst (Subscribe h) = make_chan 100"
    by (simp add: Subscribe_def)
  have 1: "GetSessionLogs (snd (Subscribe (hub_run pre hub_init))) = published pre"
    by (simp add: GetSessionLogs_def Subscribe_def sessionLogs_hub_run hub_init_def)
  have 2: "sessionLogs (hub_run post (snd (Subscribe (hub_run pre hub_init)))) =
           published pre @ published post"
    by (simp add: sessionLogs_hub_run Subscribe_def hub_init_def)
  have 3: "subscribers (hub_run post (snd (Subscribe h))) ! fst (Subscribe h) =
           own_view (fst (Subscribe h)) post (make_chan 100)"
    using nth_hub_run [OF k, of post] by (simp add: new)
  have 4: "keeps_up (fst (Subscribe h)) post (snd (Subscribe h)) \<longrightarrow>
        received (fst (Subscribe h)) post (snd (Subscribe h))
          @ buf (subscribers (hub_run post (snd (Subscribe h))) ! fst (Subscribe h))
        = published post"
    using no_gap_run [OF k, of post] by (simp add: new make_chan_def)
  have 5: "fst (Subscribe h) = length (subscribers h)"
    by (simp add: Subscribe_def)
  show ?thesis
    using 1 2 3 4 5 Write_as_map [of p h] by blast
qed

text \<open>
  Beside a subscriber that is full and drops both lines, the new subscriber takes the
  first line and holds the second.
\<close>

theorem Subscribe_snapshot_then_every_line_witness:
  "keeps_up 1 [EvWrite ''a'', EvReceive 1, EvWrite ''b''] (snd (Subscribe hub_slow))
   \<and> received 1 [EvWrite ''a'', EvReceive 1, EvWrite ''b''] (snd (Subscribe hub_slow)) = [''a'']
   \<and> buf (subscribers (hub_run [EvWrite ''a'', EvReceive 1, EvWrite ''b'']
            (snd (Subscribe hub_slow))) ! 1) = [''b'']
   \<and> buf (subscribers (hub_run [EvWrite ''a'', EvReceive 1, EvWrite ''b'']
            (snd (Subscribe hub_slow))) ! 0) = replicate 100 ''x''
   \<and> GetSessionLogs (snd (Subscribe hub_slow)) = replicate 101 ''x''"
  using Subscribe_snapshot_then_every_line
          [of "EvSubscribe # replicate 101 (EvWrite ''x'')"
              "[EvWrite ''a'', EvReceive 1, EvWrite ''b'']" "''a''" hub_slow]
  by (simp add: hub_slow_eq Subscribe_def make_chan_def Write_def receive_def recv_def
                try_send_def send_def GetSessionLogs_def Let_def)

section \<open>Claims about Stop, Kill and RunCommand\<close>




text \<open>
  C7, as stated, fails: with 100 lines waiting in the queue of the running server,
  \<^verbatim>\<open>Stop\<close> does not return and nothing is put into the queue.
\<close>

theorem Stop_blocks_on_full_queue:
  "GetStatus world_full
   \<and> length (buf (stdin (servers world_full ! 0))) = 100
   \<and> Stop world_full = (Blocks, world_full)"
  by (simp add: world_full_eq GetStatus_def Server_GetStatus_def Stop_def on_active_def
                Server_RunCommand_def send_def)

text \<open>
  C7, amended. \<^verbatim>\<open>Stop\<close> fails with "server is not running", changing nothing, when
  no server is running. On a running server with fewer than 100 lines waiting it puts
  exactly the line \<^verbatim>\<open>stop\<close> at the end of the queue and returns without error; nothing
  else changes: the process is neither waited for nor killed and \<^verbatim>\<open>isRunning\<close> stays.
\<close>

theorem Stop_enqueues_stop:
  "(\<not> GetStatus w \<longrightarrow> Stop w = (Returns (Inl ErrNotRunning), w))
   \<and> (w = run evs world_init \<and> activeServer w = Some a \<and> isRunning (servers w ! a)
        \<and> length (buf (stdin (servers w ! a))) < 100 \<longrightarrow>
        Stop w =
          (Returns (Inr ()),
           w\<lparr>servers := (servers w)
                [a := (servers w ! a)
                        \<lparr>stdin := (stdin (servers w ! a))
                                    \<lparr>buf := buf (stdin (servers w ! a)) @ [''stop'']\<rparr>,
                         sent := sent (servers w ! a) @ [''stop'']\<rparr>]\<rparr>))"
proof (intro conjI impI)
  assume "\<not> GetStatus w"
  then show "Stop w = (Returns (Inl ErrNotRunning), w)"
    by (simp add: Stop_def on_active_not_running)
next
  assume h: "w = run evs world_init \<and> activeServer w = Some a \<and> isRunning (servers w ! a)
        \<and> length (buf (stdin (servers w ! a))) < 100"
  then have ok: "world_ok w" by (simp add: world_ok_reach)
  from h have a: "activeServer w = Some a" and r: "isRunning (servers w ! a)"
    and room: "length (buf (stdin (servers w ! a))) < 100"
    by blast+
  have st: "GetStatus w" using a r by (simp add: GetStatus_def Server_GetStatus_def)
  have "cap (stdin (servers w ! a)) = 100"
    using active_in_store(3) [OF ok st] a by (simp add: srv_ok_def chan_ok_def)
  then show "Stop w =
          (Returns (Inr ()),
           w\<lparr>servers := (servers w)
                [a := (servers w ! a)
                        \<lparr>stdin := (stdin (servers w ! a))
                                    \<lparr>buf := buf (stdin (servers w ! a)) @ [''stop'']\<rparr>,
                         sent := sent (servers w ! a) @ [''stop'']\<rparr>]\<rparr>)"
    using a r room st by (simp add: Stop_def on_active_running Server_RunCommand_running)
qed

theorem Stop_enqueues_stop_witness:
  "\<not> GetStatus world_init
   \<and> Stop world_init = (Returns (Inl ErrNotRunning), world_init)
   \<and> Stop (run [CallStart Spawns ReadsBeforeCommand] world_init) =
       (Returns (Inr ()),
        \<lparr>activeServer = Some 0,
         servers = [\<lparr>cmd = Some Alive, stdin = \<lparr>cap = 100, buf = [''stop'']\<rparr>,
                     done_closed = False, isRunning = True, stdinPipe = [],
                     sent = [''stop''], early = EarlyGone, watcher = True\<rparr>],
         crashed = False\<rparr>)"
  using Stop_enqueues_stop [of world_init "[]" 0]
        Stop_enqueues_stop [of "run [CallStart Spawns ReadsBeforeCommand] world_init"
                               "[CallStart Spawns ReadsBeforeCommand]" 0]
  unfolding run_start_eq
  by (simp add: GetStatus_def world_init_def)

section \<open>Claims about Start, the queue and the exit\<close>

text \<open>
  C1, as stated, fails: the registry is empty, the process cannot be started, \<^verbatim>\<open>Start\<close>
  returns the error, and the registry refers to the new server.
\<close>

theorem Start_launch_failure_stays_registered:
  "activeServer world_init = None
   \<and> fst (Start SpawnFails ReadsBeforeCommand world_init) = Inl ErrSpawn
   \<and> activeServer (snd (Start SpawnFails ReadsBeforeCommand world_init)) = Some 0"
  by code_simp

text \<open>
  C1, amended. If \<^verbatim>\<open>Start\<close> is not refused and a pipe or the process cannot be
  created, it returns that error, and the server it has allocated stays in the registry:
  a server that is not running and whose command was never started. So \<^verbatim>\<open>GetStatus\<close>
  is false and the next \<^verbatim>\<open>Start\<close> is not refused because of it.
\<close>

theorem Start_launch_failure:
  "l \<noteq> Spawns \<and> \<not> GetStatus w \<longrightarrow>
     fst (Start l sch w) = Inl (launch_error l)
   \<and> activeServer (snd (Start l sch w)) = Some (length (servers w))
   \<and> length (servers (snd (Start l sch w))) = Suc (length (servers w))
   \<and> \<not> isRunning (servers (snd (Start l sch w)) ! length (servers w))
   \<and> cmd (servers (snd (Start l sch w)) ! length (servers w)) = Some Unstarted
   \<and> \<not> GetStatus (snd (Start l sch w))
   \<and> fst (Start l' sch' (snd (Start l sch w))) \<noteq> Inl ErrServerExists"
proof (intro impI)
  assume h: "l \<noteq> Spawns \<and> \<not> GetStatus w"
  then have n: "\<not> GetStatus (snd (Start l sch w))"
    by (simp add: GetStatus_Start)
  show "fst (Start l sch w) = Inl (launch_error l)
   \<and> activeServer (snd (Start l sch w)) = Some (length (servers w))
   \<and> length (servers (snd (Start l sch w))) = Suc (length (servers w))
   \<and> \<not> isRunning (servers (snd (Start l sch w)) ! length (servers w))
   \<and> cmd (servers (snd (Start l sch w)) ! length (servers w)) = Some Unstarted
   \<and> \<not> GetStatus (snd (Start l sch w))
   \<and> fst (Start l' sch' (snd (Start l sch w))) \<noteq> Inl ErrServerExists"
    using h n Start_not_refused [OF n, of l' sch']
    by (simp add: Start_accepted fst_startInternal isRunning_startInternal cmd_startInternal)
qed

theorem Start_launch_failure_witness:
  "StdinPipeFails \<noteq> Spawns \<and> \<not> GetStatus world_init
   \<and> fst (Start StdinPipeFails WaitsAfterSpawn world_init) = Inl ErrStdinPipe
   \<and> activeServer (snd (Start StdinPipeFails WaitsAfterSpawn world_init)) = Some 0
   \<and> \<not> GetStatus (snd (Start StdinPipeFails WaitsAfterSpawn world_init))
   \<and> fst (Start Spawns ReadsBeforeCommand (snd (Start StdinPipeFails WaitsAfterSpawn world_init)))
        \<noteq> Inl ErrServerExists"
proof -
  have 1: "StdinPipeFails \<noteq> Spawns \<and> \<not> GetStatus world_init"
    by (simp add: GetStatus_def world_init_def)
  have 2: "launch_error StdinPipeFails = ErrStdinPipe"
    by (simp add: launch_error_def)
  have 3: "length (servers world_init) = 0"
    by (simp add: world_init_def)
  show ?thesis
    using Start_launch_failure
            [of StdinPipeFails world_init WaitsAfterSpawn Spawns ReadsBeforeCommand] 1 2 3
    by simp
qed

text \<open>
  C2, as stated, fails: of two \<^verbatim>\<open>Start\<close> calls whose process cannot be started none
  wins and none is refused with "a server is already running".
\<close>

theorem Start_twice_launch_fails_no_winner:
  "fst (starts [(SpawnFails, ReadsBeforeCommand), (SpawnFails, ReadsBeforeCommand)] world_init)
     = [Inl ErrSpawn, Inl ErrSpawn]
   \<and> \<not> GetStatus (snd (starts [(SpawnFails, ReadsBeforeCommand), (SpawnFails, ReadsBeforeCommand)]
                           world_init))"
  by code_simp

text \<open>
  C2, amended. A \<^verbatim>\<open>Start\<close> call while the registered server runs fails with
  "a server is already running" and changes nothing. When \<^verbatim>\<open>Start\<close> calls follow
  each other from a state in which no server runs, the calls whose launch fails return
  their launch errors, the first call whose launch succeeds wins and its server is the
  registered one, and every later call is refused. In every reachable state at most one
  server has \<^verbatim>\<open>isRunning\<close> set, and it is the registered one.
\<close>

theorem Start_single_winner:
  "(GetStatus w \<longrightarrow> Start l sch w = (Inl ErrServerExists, w))
   \<and> (\<not> GetStatus w \<and> (\<forall>x \<in> set fails. fst x \<noteq> Spawns) \<longrightarrow>
        fst (starts (fails @ (Spawns, sch) # rest) w) =
          map (\<lambda>x. Inl (launch_error (fst x))) fails
            @ Inr () # replicate (length rest) (Inl ErrServerExists)
        \<and> activeServer (snd (starts (fails @ (Spawns, sch) # rest) w)) =
            Some (length (servers w) + length fails)
        \<and> GetStatus (snd (starts (fails @ (Spawns, sch) # rest) w)))
   \<and> (\<forall>a < length (servers (run evs world_init)).
        \<forall>b < length (servers (run evs world_init)).
          isRunning (servers (run evs world_init) ! a)
          \<and> isRunning (servers (run evs world_init) ! b) \<longrightarrow>
            a = b \<and> activeServer (run evs world_init) = Some a)"
proof (intro conjI impI allI)
  assume "GetStatus w"
  then show "Start l sch w = (Inl ErrServerExists, w)" by (rule Start_refused)
next
  assume h: "\<not> GetStatus w \<and> (\<forall>x \<in> set fails. fst x \<noteq> Spawns)"
  let ?w = "snd (starts fails w)"
  have f: "fst (starts fails w) = map (\<lambda>x. Inl (launch_error (fst x))) fails"
    and n: "\<not> GetStatus ?w"
    and len: "length (servers ?w) = length (servers w) + length fails"
    using starts_all_fail [of w fails] h by simp_all
  have g: "GetStatus (snd (Start Spawns sch ?w))"
    using n by (simp add: GetStatus_Start)
  have r: "fst (Start Spawns sch ?w) = Inr ()"
    using n by (simp add: Start_accepted fst_startInternal)
  have s: "starts ((Spawns, sch) # rest) ?w =
           (Inr () # replicate (length rest) (Inl ErrServerExists), snd (Start Spawns sch ?w))"
    by (simp add: Let_def starts_refused [OF g] r)
  have all: "starts (fails @ (Spawns, sch) # rest) w =
        (map (\<lambda>x. Inl (launch_error (fst x))) fails
            @ Inr () # replicate (length rest) (Inl ErrServerExists), snd (Start Spawns sch ?w))"
    unfolding starts_append [of fails "(Spawns, sch) # rest" w] s f by simp
  show "fst (starts (fails @ (Spawns, sch) # rest) w) =
          map (\<lambda>x. Inl (launch_error (fst x))) fails
            @ Inr () # replicate (length rest) (Inl ErrServerExists)"
    by (simp add: all)
  show "activeServer (snd (starts (fails @ (Spawns, sch) # rest) w)) =
            Some (length (servers w) + length fails)"
    using n len by (simp add: all Start_accepted)
  show "GetStatus (snd (starts (fails @ (Spawns, sch) # rest) w))"
    using g by (simp add: all)
next
  fix a b
  assume "a < length (servers (run evs world_init))" "b < length (servers (run evs world_init))"
    "isRunning (servers (run evs world_init) ! a) \<and> isRunning (servers (run evs world_init) ! b)"
  then show "a = b" "activeServer (run evs world_init) = Some a"
    using one_running [OF world_ok_reach, of a evs b] by simp_all
qed

theorem Start_single_winner_witness:
  "GetStatus (run [CallStart Spawns ReadsBeforeCommand] world_init)
   \<and> Start Spawns ReadsBeforeCommand (run [CallStart Spawns ReadsBeforeCommand] world_init) =
       (Inl ErrServerExists, run [CallStart Spawns ReadsBeforeCommand] world_init)
   \<and> \<not> GetStatus world_init
   \<and> fst (starts ([(SpawnFails, ReadsBeforeCommand)] @ (Spawns, ReadsBeforeCommand)
                    # [(Spawns, ReadsBeforeCommand), (SpawnFails, ReadsBeforeCommand)]) world_init) =
       [Inl ErrSpawn, Inr (), Inl ErrServerExists, Inl ErrServerExists]
   \<and> activeServer (snd (starts ([(SpawnFails, ReadsBeforeCommand)] @ (Spawns, ReadsBeforeCommand)
                    # [(Spawns, ReadsBeforeCommand), (SpawnFails, ReadsBeforeCommand)]) world_init)) =
       Some 1
   \<and> 0 < length (servers (run [CallStart Spawns ReadsBeforeCommand] world_init))
   \<and> isRunning (servers (run [CallStart Spawns ReadsBeforeCommand] world_init) ! 0)
   \<and> activeServer (run [CallStart Spawns ReadsBeforeCommand] world_init) = Some 0"
proof -
  have 1: "GetStatus (run [CallStart Spawns ReadsBeforeCommand] world_init)"
    unfolding run_start_eq by (simp add: GetStatus_def Server_GetStatus_def)
  have 2: "\<not> GetStatus world_init"
    by (simp add: GetStatus_def world_init_def)
  have 3: "\<forall>x \<in> set [(SpawnFails, ReadsBeforeCommand)]. fst x \<noteq> Spawns"
    by simp
  have 4: "0 < length (servers (run [CallStart Spawns ReadsBeforeCommand] world_init))
           \<and> isRunning (servers (run [CallStart Spawns ReadsBeforeCommand] world_init) ! 0)"
    unfolding run_start_eq by simp
  have 5: "length (servers world_init) = 0"
    by (simp add: world_init_def)
  have 6: "launch_error SpawnFails = ErrSpawn"
    by (simp add: launch_error_def)
  note A = Start_single_winner
            [of "run [CallStart Spawns ReadsBeforeCommand] world_init" Spawns ReadsBeforeCommand
                "[]" "[]" "[CallStart Spawns ReadsBeforeCommand]"]
  note B = Start_single_winner
            [of world_init Spawns ReadsBeforeCommand "[(SpawnFails, ReadsBeforeCommand)]"
                "[(Spawns, ReadsBeforeCommand), (SpawnFails, ReadsBeforeCommand)]" "[]"]
  have 7: "activeServer (run [CallStart Spawns ReadsBeforeCommand] world_init) = Some 0"
    using A 4 by blast
  show ?thesis
    using A B 1 2 3 4 5 6 7 by (simp del: starts.simps run.simps)
qed




text \<open>
  C9 fails on the code. \<^verbatim>\<open>Start\<close> succeeds; the first goroutine of
  \<^verbatim>\<open>startInternal\<close> has read the command and called \<^verbatim>\<open>Wait\<close> before the process
  was started, so \<^verbatim>\<open>Wait\<close> has returned an error at once. When the goroutine goes on,
  \<^verbatim>\<open>GetStatus\<close> turns false although the process lives and the exit watcher still
  waits. When the process ends later, the exit watcher closes the closed channel
  \<^verbatim>\<open>done\<close> and the program panics.
\<close>

theorem Status_cleared_while_process_lives:
  "fst (Start Spawns WaitsBeforeSpawn world_init) = Inr ()
   \<and> GetStatus (snd (Start Spawns WaitsBeforeSpawn world_init))
   \<and> cmd (servers (exec (EarlyFlag 0) (snd (Start Spawns WaitsBeforeSpawn world_init))) ! 0)
        = Some Alive
   \<and> watcher (servers (exec (EarlyFlag 0) (snd (Start Spawns WaitsBeforeSpawn world_init))) ! 0)
   \<and> \<not> GetStatus (exec (EarlyFlag 0) (snd (Start Spawns WaitsBeforeSpawn world_init)))
   \<and> crashed (run [CallStart Spawns WaitsBeforeSpawn, EarlyFlag 0, ChildExit 0, ExitWatcher 0]
                 world_init)"
  by code_simp

text \<open>
  C10. In every reachable state the queue of every server has capacity 100 and holds at
  most 100 lines, and \<^verbatim>\<open>RunCommand\<close> on the running server returns exactly when fewer
  than 100 lines wait. In every reachable state of the hub every subscriber's channel has
  capacity 100 and holds at most 100 lines, and a write leaves a subscriber's channel as
  it was (the line is dropped for it) exactly when it holds 100 lines.
\<close>

theorem queue_and_buffers_hold_100:
  "(\<forall>a < length (servers (run evs world_init)).
       cap (stdin (servers (run evs world_init) ! a)) = 100
     \<and> length (buf (stdin (servers (run evs world_init) ! a))) \<le> 100)
   \<and> (GetStatus (run evs world_init) \<longrightarrow>
        ((\<exists>r. fst (RunCommand c (run evs world_init)) = Returns r) \<longleftrightarrow>
         length (buf (stdin (servers (run evs world_init)
                                ! the (activeServer (run evs world_init))))) < 100))
   \<and> (\<forall>i < length (subscribers (hub_run es hub_init)).
       cap (subscribers (hub_run es hub_init) ! i) = 100
     \<and> length (buf (subscribers (hub_run es hub_init) ! i)) \<le> 100
     \<and> (subscribers (snd (Write p (hub_run es hub_init))) ! i = subscribers (hub_run es hub_init) ! i
          \<longleftrightarrow> length (buf (subscribers (hub_run es hub_init) ! i)) = 100))"
proof (intro conjI allI impI)
  fix a
  assume "a < length (servers (run evs world_init))"
  then have "chan_ok (stdin (servers (run evs world_init) ! a))"
    using world_okD(2) [OF world_ok_reach, of a evs] by (simp add: srv_ok_def)
  then show "cap (stdin (servers (run evs world_init) ! a)) = 100"
    and "length (buf (stdin (servers (run evs world_init) ! a))) \<le> 100"
    by (simp_all add: chan_ok_def)
next
  assume "GetStatus (run evs world_init)"
  then show "(\<exists>r. fst (RunCommand c (run evs world_init)) = Returns r) \<longleftrightarrow>
         length (buf (stdin (servers (run evs world_init)
                                ! the (activeServer (run evs world_init))))) < 100"
    using RunCommand_result [OF world_ok_reach, of evs c] by simp
next
  fix i
  assume i: "i < length (subscribers (hub_run es hub_init))"
  have "hub_ok (hub_run es hub_init)"
    by (simp add: hub_ok_run hub_ok_init)
  then have ok: "chan_ok (subscribers (hub_run es hub_init) ! i)"
    using i by (simp add: hub_ok_def)
  then show "cap (subscribers (hub_run es hub_init) ! i) = 100"
    and "length (buf (subscribers (hub_run es hub_init) ! i)) \<le> 100"
    by (simp_all add: chan_ok_def)
  have "subscribers (snd (Write p (hub_run es hub_init))) ! i =
        try_send (subscribers (hub_run es hub_init) ! i) p"
    using i by (simp add: Write_def nth_offer_each)
  moreover have "try_send (subscribers (hub_run es hub_init) ! i) p =
                   subscribers (hub_run es hub_init) ! i
                 \<longleftrightarrow> length (buf (subscribers (hub_run es hub_init) ! i)) = 100"
  proof (cases "length (buf (subscribers (hub_run es hub_init) ! i)) < 100")
    case True
    have "buf ((subscribers (hub_run es hub_init) ! i)
                 \<lparr>buf := buf (subscribers (hub_run es hub_init) ! i) @ [p]\<rparr>)
          \<noteq> buf (subscribers (hub_run es hub_init) ! i)"
      by simp
    then have "(subscribers (hub_run es hub_init) ! i)
                 \<lparr>buf := buf (subscribers (hub_run es hub_init) ! i) @ [p]\<rparr>
          \<noteq> subscribers (hub_run es hub_init) ! i"
      by metis
    then show ?thesis
      using True ok by (simp add: try_send_room chan_ok_def)
  next
    case False
    then show ?thesis
      using ok by (simp add: try_send_full chan_ok_def)
  qed
  ultimately show "subscribers (snd (Write p (hub_run es hub_init))) ! i =
                     subscribers (hub_run es hub_init) ! i
                   \<longleftrightarrow> length (buf (subscribers (hub_run es hub_init) ! i)) = 100"
    by simp
qed

theorem queue_and_buffers_hold_100_witness:
  "0 < length (servers world_full)
   \<and> length (buf (stdin (servers world_full ! 0))) = 100
   \<and> GetStatus world_full
   \<and> \<not> (\<exists>r. fst (RunCommand ''list'' world_full) = Returns r)
   \<and> 0 < length (subscribers hub_slow)
   \<and> length (buf (subscribers hub_slow ! 0)) = 100
   \<and> subscribers (snd (Write ''y'' hub_slow)) ! 0 = subscribers hub_slow ! 0"
proof -
  have 1: "0 < length (servers world_full) \<and> length (buf (stdin (servers world_full ! 0))) = 100
           \<and> the (activeServer world_full) = 0"
    by (simp add: world_full_eq)
  have 2: "GetStatus world_full"
    by (simp add: world_full_eq GetStatus_def Server_GetStatus_def)
  have 3: "0 < length (subscribers hub_slow) \<and> length (buf (subscribers hub_slow ! 0)) = 100"
    by (simp add: hub_slow_eq)
  show ?thesis
    using queue_and_buffers_hold_100
            [of "CallStart Spawns ReadsBeforeCommand # replicate 100 (CallRunCommand ''list'')"
                "''list''" "EvSubscribe # replicate 101 (EvWrite ''x'')" "''y''"]
          1 2 3
    unfolding world_full_def [symmetric] hub_slow_def [symmetric]
    by simp
qed

end
